theory Spec2Isabelle
  imports Complex_Main
begin

section \<open>How the NumPy expressions are read\<close>

text \<open>
  The two example scripts compute with NumPy on binary64 floats. Two readings are used.

  Where a statement compares two runs of the same operations (\<open>lmb\<close> against
  \<open>qu\<close>), or evaluates the code at an input at which every operation is exact
  (\<open>penalty\<close> at \<open>[2.0]\<close>), a NumPy expression is read as the real function it
  denotes: \<open>np.exp\<close> is \<open>exp\<close>, \<open>np.log\<close> is \<open>ln\<close>, a float is a \<open>real\<close> and a
  one-dimensional array of floats is a \<open>real list\<close>.

  Every other statement is about what the machine computes and is made on a model of
  binary64: finite values, the two infinities and NaN, every operation rounded to
  nearest with ties to even, gradual underflow, and overflow to infinity. It is given
  in the second half of the definitions.
\<close>

datatype error = ValueError

text \<open>The values that flow through \<open>qu\<close> and \<open>lmb\<close>: a float or a 1-d array.\<close>

datatype ndarray = Scalar real | Vector "real list"

text \<open>A NumPy universal function applies a scalar function to every element.\<close>

fun ufunc :: "(real \<Rightarrow> real) \<Rightarrow> ndarray \<Rightarrow> ndarray" where
  "ufunc f (Scalar a) = Scalar (f a)"
| "ufunc f (Vector v) = Vector (map f v)"

definition np_exp :: "ndarray \<Rightarrow> ndarray" where
  "np_exp = ufunc exp"

text \<open>
  \<open>np.log\<close> returns \<open>-inf\<close> at 0 and \<open>nan\<close> below 0, where \<open>ln\<close> is some
  real number. Every use below applies it to an argument above 1.
\<close>

definition np_log :: "ndarray \<Rightarrow> ndarray" where
  "np_log = ufunc ln"

text \<open>A Python float plus an array: the float is broadcast over the elements.\<close>

definition scalar_add :: "real \<Rightarrow> ndarray \<Rightarrow> ndarray" where
  "scalar_add c = ufunc (\<lambda>a. c + a)"

text \<open>
  \<open>np.spacing(1)\<close>: the distance from 1.0 to the next larger binary64 number. The
  significand has 52 fraction bits, so this is \<open>2^-52\<close>.
\<close>

definition spacing_1 :: real where
  "spacing_1 = 1 / 2 ^ 52"

section \<open>The conditional intensity function (examples/plot\_glmnet.py)\<close>

text \<open>
  \<^verbatim>\<open>
  def qu(z):
      eps = np.spacing(1)
      return np.log(1 + eps + np.exp(z))
  \<close>
  Python adds from the left: \<open>(1 + eps) + np.exp(z)\<close>.
\<close>

definition qu :: "ndarray \<Rightarrow> ndarray" where
  "qu z = (let eps = spacing_1 in np_log (scalar_add (1 + eps) (np_exp z)))"

text \<open>
  The argument \<open>x\<close> of \<open>lmb\<close> is one observation (a 1-d array of predictors) or a
  design matrix (a 2-d array, one row per observation).
\<close>

datatype design = Row "real list" | Matrix "real list list"

definition dot_1d :: "real list \<Rightarrow> real list \<Rightarrow> real" where
  "dot_1d x b = (\<Sum>(u, v)\<leftarrow>zip x b. u * v)"

text \<open>
  \<open>np.dot(x, beta)\<close> with a 1-d \<open>beta\<close>: the inner product for a 1-d \<open>x\<close>, the
  matrix-vector product for a 2-d \<open>x\<close>. It raises \<open>ValueError\<close> when the last axis
  of \<open>x\<close> and \<open>beta\<close> differ in length. A list of rows of unequal lengths is no
  2-d array of floats and is answered with the same error.
\<close>

fun np_dot :: "design \<Rightarrow> real list \<Rightarrow> error + ndarray" where
  "np_dot (Row x) b =
     (if length x = length b then Inr (Scalar (dot_1d x b)) else Inl ValueError)"
| "np_dot (Matrix X) b =
     (if list_all (\<lambda>r. length r = length b) X then Inr (Vector (map (\<lambda>r. dot_1d r b) X))
      else Inl ValueError)"

text \<open>
  \<^verbatim>\<open>
  def lmb(beta0, beta, x):
      eps = np.spacing(1)
      z = beta0 + np.dot(x, beta)
      return np.log(1 + eps + np.exp(z))
  \<close>
\<close>

definition lmb :: "real \<Rightarrow> real list \<Rightarrow> design \<Rightarrow> error + ndarray" where
  "lmb beta0 beta x =
     (let eps = spacing_1 in
      case np_dot x beta of
        Inl e \<Rightarrow> Inl e
      | Inr d \<Rightarrow>
          (let z = scalar_add beta0 d
           in Inr (np_log (scalar_add (1 + eps) (np_exp z)))))"

section \<open>The elastic-net penalty (examples/plot\_glmnet.py)\<close>

text \<open>
  \<open>np.linalg.norm(x, ord)\<close> on a 1-d array: the number of non-zero entries for
  \<open>ord = 0\<close>, and the \<open>ord\<close>-th root of the sum of \<open>|x|^ord\<close> for a positive
  integer \<open>ord\<close>.
\<close>

definition linalg_norm :: "real list \<Rightarrow> nat \<Rightarrow> real" where
  "linalg_norm x ord =
     (if ord = 0 then real (length (filter (\<lambda>v. v \<noteq> 0) x))
      else root ord (\<Sum>v\<leftarrow>x. \<bar>v\<bar> ^ ord))"

text \<open>
  \<^verbatim>\<open>
  def penalty(alpha, beta):
      P = 0.5 * (1 - alpha) * np.linalg.norm(beta, 2) + alpha * np.linalg.norm(beta, 1)
      return P
  \<close>
\<close>

definition penalty :: "real \<Rightarrow> real list \<Rightarrow> real" where
  "penalty alpha beta =
     0.5 * (1 - alpha) * linalg_norm beta 2 + alpha * linalg_norm beta 1"

text \<open>
  The elastic-net formula as the comment above \<open>penalty\<close> in the script and the
  specification write it: \<open>(1 - alpha) * 1/2 * ||beta||_2^2 + alpha * ||beta||_1\<close>,
  with the squared Euclidean norm.
\<close>

definition elastic_net :: "real \<Rightarrow> real list \<Rightarrow> real" where
  "elastic_net alpha beta =
     (1 - alpha) * (1 / 2) * (\<Sum>v\<leftarrow>beta. v\<^sup>2) + alpha * (\<Sum>v\<leftarrow>beta. \<bar>v\<bar>)"

section \<open>Binary64\<close>

text \<open>
  Rounding a real number to the nearest integer, a tie going to the even neighbour.
\<close>

definition round_even :: "real \<Rightarrow> int" where
  "round_even q =
     (let f = \<lfloor>q\<rfloor>; d = q - of_int f
      in if d < 1 / 2 then f else if 1 / 2 < d then f + 1 else if even f then f else f + 1)"

text \<open>
  A finite binary64 number is \<open>m * 2^k\<close> with an integer \<open>|m| < 2^53\<close> and
  \<open>-1074 \<le> k \<le> 971\<close>. The spacing of the numbers around \<open>y\<close> is
  \<open>2^(e - 52)\<close>, where \<open>e\<close> is the exponent of \<open>y\<close>, not below \<open>-1022\<close> (below
  \<open>2^-1022\<close> the numbers are subnormal and equally spaced). \<open>f64_val y\<close> is the
  multiple of that spacing nearest to \<open>y\<close>.
\<close>

definition f64_emin :: int where
  "f64_emin = - 1022"

definition f64_expo :: "real \<Rightarrow> int" where
  "f64_expo y = max \<lfloor>log 2 \<bar>y\<bar>\<rfloor> f64_emin"

definition f64_ulp :: "real \<Rightarrow> real" where
  "f64_ulp y = 2 powi (f64_expo y - 52)"

definition f64_val :: "real \<Rightarrow> real" where
  "f64_val y = of_int (round_even (y / f64_ulp y)) * f64_ulp y"

text \<open>
  A binary64 value. The two zeros are not told apart, and there is one NaN.
\<close>

datatype f64 = Finite real | PosInf | NegInf | NaN

text \<open>
  Rounding to nearest overflows to an infinity when the magnitude reaches
  \<open>2^1024 - 2^970\<close>, half a unit in the last place above the largest finite number
  \<open>2^1024 - 2^971\<close>.
\<close>

definition f64_threshold :: real where
  "f64_threshold = 2 ^ 1024 - 2 ^ 970"

definition f64_round :: "real \<Rightarrow> f64" where
  "f64_round y =
     (if y \<le> - f64_threshold then NegInf
      else if f64_threshold \<le> y then PosInf
      else Finite (f64_val y))"

text \<open>The comparisons \<open><\<close> and \<open><=\<close> of binary64: false whenever a NaN takes part.\<close>

fun f64_less :: "f64 \<Rightarrow> f64 \<Rightarrow> bool" where
  "f64_less (Finite a) (Finite b) = (a < b)"
| "f64_less NaN _ = False"
| "f64_less _ NaN = False"
| "f64_less NegInf NegInf = False"
| "f64_less NegInf _ = True"
| "f64_less PosInf _ = False"
| "f64_less _ PosInf = True"
| "f64_less _ NegInf = False"

fun f64_le :: "f64 \<Rightarrow> f64 \<Rightarrow> bool" where
  "f64_le (Finite a) (Finite b) = (a \<le> b)"
| "f64_le NaN _ = False"
| "f64_le _ NaN = False"
| "f64_le NegInf _ = True"
| "f64_le _ PosInf = True"
| "f64_le PosInf _ = False"
| "f64_le _ NegInf = False"

text \<open>
  The arithmetic of binary64: the exact result, rounded; the special cases of
  infinities and NaN as IEEE 754 has them (\<open>inf - inf\<close> and \<open>0 * inf\<close> are NaN).
\<close>

fun f64_neg :: "f64 \<Rightarrow> f64" where
  "f64_neg (Finite a) = Finite (- a)"
| "f64_neg PosInf = NegInf"
| "f64_neg NegInf = PosInf"
| "f64_neg NaN = NaN"

fun f64_abs :: "f64 \<Rightarrow> f64" where
  "f64_abs (Finite a) = Finite \<bar>a\<bar>"
| "f64_abs PosInf = PosInf"
| "f64_abs NegInf = PosInf"
| "f64_abs NaN = NaN"

fun f64_add :: "f64 \<Rightarrow> f64 \<Rightarrow> f64" where
  "f64_add (Finite a) (Finite b) = f64_round (a + b)"
| "f64_add NaN _ = NaN"
| "f64_add _ NaN = NaN"
| "f64_add PosInf NegInf = NaN"
| "f64_add NegInf PosInf = NaN"
| "f64_add PosInf _ = PosInf"
| "f64_add _ PosInf = PosInf"
| "f64_add NegInf _ = NegInf"
| "f64_add _ NegInf = NegInf"

definition f64_sub :: "f64 \<Rightarrow> f64 \<Rightarrow> f64" where
  "f64_sub a b = f64_add a (f64_neg b)"

fun f64_mul :: "f64 \<Rightarrow> f64 \<Rightarrow> f64" where
  "f64_mul (Finite a) (Finite b) = f64_round (a * b)"
| "f64_mul NaN _ = NaN"
| "f64_mul _ NaN = NaN"
| "f64_mul (Finite a) PosInf = (if a = 0 then NaN else if 0 < a then PosInf else NegInf)"
| "f64_mul (Finite a) NegInf = (if a = 0 then NaN else if 0 < a then NegInf else PosInf)"
| "f64_mul PosInf (Finite b) = (if b = 0 then NaN else if 0 < b then PosInf else NegInf)"
| "f64_mul NegInf (Finite b) = (if b = 0 then NaN else if 0 < b then NegInf else PosInf)"
| "f64_mul PosInf PosInf = PosInf"
| "f64_mul PosInf NegInf = NegInf"
| "f64_mul NegInf PosInf = NegInf"
| "f64_mul NegInf NegInf = PosInf"

fun f64_sqrt :: "f64 \<Rightarrow> f64" where
  "f64_sqrt (Finite x) = (if x < 0 then NaN else f64_round (sqrt x))"
| "f64_sqrt PosInf = PosInf"
| "f64_sqrt NegInf = NaN"
| "f64_sqrt NaN = NaN"

text \<open>
  \<open>np.exp\<close> and \<open>np.log\<close> on binary64, taken as the exact function rounded to
  nearest. \<open>np.log\<close> is \<open>-inf\<close> at 0 and NaN below 0.
\<close>

fun f64_exp :: "f64 \<Rightarrow> f64" where
  "f64_exp (Finite z) = f64_round (exp z)"
| "f64_exp PosInf = PosInf"
| "f64_exp NegInf = Finite 0"
| "f64_exp NaN = NaN"

fun f64_log :: "f64 \<Rightarrow> f64" where
  "f64_log (Finite x) = (if x < 0 then NaN else if x = 0 then NegInf else f64_round (ln x))"
| "f64_log PosInf = PosInf"
| "f64_log NegInf = NaN"
| "f64_log NaN = NaN"

text \<open>
  The body of \<open>qu\<close> on one binary64 argument, with the additions in Python's order:
  \<open>(1 + eps) + np.exp(z)\<close>.
\<close>

definition qu_f64 :: "f64 \<Rightarrow> f64" where
  "qu_f64 z = (let eps = Finite spacing_1
               in f64_log (f64_add (f64_add (Finite 1) eps) (f64_exp z)))"

text \<open>
  The softplus of the script's own formula \<open>q(z) = log(1 + exp(z))\<close>, without the
  epsilon; \<open>qu_f64\<close> is compared with it.
\<close>

definition softplus_f64 :: "f64 \<Rightarrow> f64" where
  "softplus_f64 z = f64_log (f64_add (Finite 1) (f64_exp z))"

text \<open>
  \<open>np.linalg.norm(x, 1)\<close> is \<open>add.reduce(abs(x))\<close> and \<open>np.linalg.norm(x, 2)\<close>
  is \<open>sqrt(x.dot(x))\<close> on a 1-d array. NumPy does not fix the order of the additions;
  the model adds from left to right.
\<close>

definition norm1_f64 :: "f64 list \<Rightarrow> f64" where
  "norm1_f64 x = foldl f64_add (Finite 0) (map f64_abs x)"

definition norm2_f64 :: "f64 list \<Rightarrow> f64" where
  "norm2_f64 x = f64_sqrt (foldl f64_add (Finite 0) (map (\<lambda>v. f64_mul v v) x))"

text \<open>
  The body of \<open>penalty\<close> on binary64, in Python's order of evaluation:
  \<open>((0.5 * (1 - alpha)) * norm2) + (alpha * norm1)\<close>.
\<close>

definition penalty_f64 :: "f64 \<Rightarrow> f64 list \<Rightarrow> f64" where
  "penalty_f64 alpha beta =
     f64_add (f64_mul (f64_mul (Finite 0.5) (f64_sub (Finite 1) alpha)) (norm2_f64 beta))
             (f64_mul alpha (norm1_f64 beta))"

text \<open>
  The results that a rounded sum of absolute values can have: a non-negative number
  that rounding leaves as it is, or \<open>+inf\<close>.
\<close>

definition f64_rounded :: "f64 \<Rightarrow> bool" where
  "f64_rounded x = (case x of Finite v \<Rightarrow> 0 \<le> v \<and> f64_round v = Finite v | PosInf \<Rightarrow> True
                    | NegInf \<Rightarrow> False | NaN \<Rightarrow> False)"

section \<open>The penalty omits the square\<close>

lemma linalg_norm_2: "linalg_norm x 2 = sqrt (\<Sum>v\<leftarrow>x. v\<^sup>2)"
  by (simp add: linalg_norm_def sqrt_def)

text \<open>
  C1. The claim is that \<open>penalty alpha beta\<close> is the elastic-net formula with half the
  squared Euclidean norm, so that \<open>penalty 0 beta\<close> is half the sum of squares. The code
  does not square the norm: at \<open>alpha = 0\<close> and \<open>beta = [2]\<close> it returns
  \<open>0.5 * 1 * 2 = 1\<close>, where the formula gives \<open>1/2 * 4 = 2\<close>.
\<close>

theorem penalty_not_squared: "penalty 0 [2] = 1 \<and> elastic_net 0 [2] = 2"
  by (simp add: penalty_def elastic_net_def linalg_norm_2)

section \<open>The conditional intensity is qu of the linear predictor\<close>

lemma lmb_via_qu:
  "lmb beta0 beta x =
     (case np_dot x beta of Inl e \<Rightarrow> Inl e | Inr d \<Rightarrow> Inr (qu (scalar_add beta0 d)))"
  by (simp add: lmb_def qu_def Let_def split: sum.splits)

text \<open>
  C5. \<open>lmb beta0 beta x\<close> is \<open>qu\<close> of the linear predictor \<open>beta0 + x . beta\<close>: for
  one observation it is \<open>qu\<close> of a number, for a design matrix it is \<open>qu\<close> of the
  vector of the rows' predictors, on which \<open>qu\<close> works element by element. Where the
  shapes do not fit, \<open>np.dot\<close> raises and \<open>lmb\<close> has no value.
\<close>

theorem lmb_is_qu:
  "lmb beta0 beta (Row x) =
     (if length x = length beta then Inr (qu (Scalar (beta0 + dot_1d x beta)))
      else Inl ValueError) \<and>
   lmb beta0 beta (Matrix X) =
     (if list_all (\<lambda>r. length r = length beta) X
      then Inr (qu (Vector (map (\<lambda>r. beta0 + dot_1d r beta) X)))
      else Inl ValueError)"
  by (simp add: lmb_via_qu scalar_add_def comp_def)

section \<open>Rounding to nearest\<close>

lemma round_even_of_int: "round_even (of_int n) = n"
  by (simp add: round_even_def)

lemma round_even_ge_floor: "\<lfloor>q\<rfloor> \<le> round_even q"
  by (simp add: round_even_def Let_def)

lemma round_even_le_floor1: "round_even q \<le> \<lfloor>q\<rfloor> + 1"
  by (simp add: round_even_def Let_def)

lemma round_even_mono:
  assumes "p \<le> q"
  shows "round_even p \<le> round_even q"
proof (cases "\<lfloor>p\<rfloor> = \<lfloor>q\<rfloor>")
  case True
  then show ?thesis using assms by (auto simp: round_even_def Let_def)
next
  case False
  then have "\<lfloor>p\<rfloor> + 1 \<le> \<lfloor>q\<rfloor>" using floor_mono [OF assms] by linarith
  then show ?thesis
    using round_even_le_floor1 [of p] round_even_ge_floor [of q] by linarith
qed

lemma round_even_ge: "of_int n \<le> q \<Longrightarrow> n \<le> round_even q"
  using round_even_mono [of "of_int n" q] by (simp add: round_even_of_int)

lemma round_even_le: "q \<le> of_int n \<Longrightarrow> round_even q \<le> n"
  using round_even_mono [of q "of_int n"] by (simp add: round_even_of_int)

lemma round_even_near:
  assumes "\<bar>q - of_int n\<bar> < 1 / 2"
  shows "round_even q = n"
proof (cases "of_int n \<le> q")
  case True
  then have "\<lfloor>q\<rfloor> = n" using assms by (intro floor_unique) (auto simp: abs_less_iff)
  then show ?thesis using assms True by (auto simp: round_even_def Let_def abs_less_iff)
next
  case False
  then have "\<lfloor>q\<rfloor> = n - 1" using assms by (intro floor_unique) (auto simp: abs_less_iff)
  then show ?thesis using assms False by (auto simp: round_even_def Let_def abs_less_iff)
qed

lemma f64_ulp_pos: "0 < f64_ulp y"
  by (simp add: f64_ulp_def)

lemma powr_powi: "(2::real) powr of_int k = 2 powi k"
  by (rule powr_real_of_int') simp_all

lemma floor_log2_eq:
  assumes "2 powi e \<le> y" and "y < 2 powi (e + 1)"
  shows "\<lfloor>log 2 y\<rfloor> = e"
proof -
  have "0 < (2::real) powi e" by simp
  then have "0 < y" using assms(1) by linarith
  then show ?thesis
    using assms floor_log_eq_powr_iff [of y 2 e] powr_powi [of e] powr_powi [of "e + 1"]
    by simp
qed

lemma floor_log2_bounds:
  assumes "0 < y"
  shows "2 powi \<lfloor>log 2 y\<rfloor> \<le> y \<and> y < 2 powi (\<lfloor>log 2 y\<rfloor> + 1)"
  using assms floor_log_eq_powr_iff [of y 2 "\<lfloor>log 2 y\<rfloor>"]
    powr_powi [of "\<lfloor>log 2 y\<rfloor>"] powr_powi [of "\<lfloor>log 2 y\<rfloor> + 1"]
  by simp

lemma f64_val_0: "f64_val 0 = 0"
  by (simp add: f64_val_def round_even_def)

lemma f64_val_nonneg: "0 \<le> y \<Longrightarrow> 0 \<le> f64_val y"
  unfolding f64_val_def using f64_ulp_pos [of y]
  by (intro mult_nonneg_nonneg) (auto intro!: round_even_ge simp: less_imp_le)

text \<open>A value whose quotient by its own unit is an integer is kept.\<close>

lemma f64_val_fix: "y / f64_ulp y = of_int m \<Longrightarrow> f64_val y = y"
proof -
  assume q: "y / f64_ulp y = of_int m"
  have "f64_ulp y \<noteq> 0" using f64_ulp_pos [of y] by simp
  then have "y = of_int m * f64_ulp y" using q by (simp add: field_simps)
  then show ?thesis using q by (simp add: f64_val_def round_even_of_int)
qed

lemma powi_split: "(2::real) powi (e - 52) = 2 powi e / 2 ^ 52"
  by (simp add: power_int_diff)

lemma powi_succ: "(2::real) powi (e + 1) = 2 * 2 powi e"
  by (simp add: power_int_add)

lemma powi_52: "(2::real) powi (k + 52) = 2 ^ 52 * 2 powi k"
  by (simp add: power_int_add)

lemma powi_53: "(2::real) powi (k + 53) = 2 ^ 53 * 2 powi k"
  by (simp add: power_int_add)

lemma quot_scale: "(y::real) / 2 powi (e - 52) = y / 2 powi e * 2 ^ 52"
  by (simp add: powi_split)

lemma f64_expo_normal:
  assumes "2 powi e \<le> y" and "y < 2 powi (e + 1)" and "f64_emin \<le> e"
  shows "f64_expo y = e"
proof -
  have "0 < (2::real) powi e" by simp
  then have "0 < y" using assms(1) by linarith
  then have "\<lfloor>log 2 \<bar>y\<bar>\<rfloor> = e" using floor_log2_eq [OF assms(1,2)] by simp
  then show ?thesis using assms(3) by (simp add: f64_expo_def)
qed

lemma f64_expo_subnormal:
  assumes "0 < y" and "y < 2 powi f64_emin"
  shows "f64_expo y = f64_emin"
proof -
  have "\<lfloor>log 2 y\<rfloor> < f64_emin"
  proof (rule ccontr)
    assume "\<not> \<lfloor>log 2 y\<rfloor> < f64_emin"
    then have "(2::real) powi f64_emin \<le> 2 powi \<lfloor>log 2 y\<rfloor>"
      by (intro power_int_increasing) simp_all
    then show False using floor_log2_bounds [OF assms(1)] assms(2) by linarith
  qed
  then show ?thesis using assms(1) by (simp add: f64_expo_def)
qed

lemma quot_bounds:
  assumes "0 < p" and "a * p \<le> y" and "y < b * p"
  shows "a * 2 ^ 52 \<le> y / p * 2 ^ 52 \<and> y / p * 2 ^ 52 < b * (2 ^ 52 :: real)"
proof -
  define t where "t = y / p"
  have "a \<le> t" using assms(1,2) by (simp add: t_def le_divide_eq)
  moreover have "t < b" using assms(1,3) by (simp add: t_def divide_less_eq)
  ultimately have "a * 2 ^ 52 \<le> t * 2 ^ 52 \<and> t * 2 ^ 52 < b * (2 ^ 52 :: real)" by simp
  then show ?thesis unfolding t_def .
qed

lemma quot_normal:
  assumes "2 powi e \<le> y" and "y < 2 powi (e + 1)" and "f64_emin \<le> e"
  shows "f64_ulp y = 2 powi (e - 52) \<and> 2 ^ 52 \<le> y / f64_ulp y \<and> y / f64_ulp y < 2 ^ 53"
proof -
  have u: "f64_ulp y = 2 powi (e - 52)"
    by (simp add: f64_ulp_def f64_expo_normal [OF assms])
  have "1 * 2 powi e \<le> y" "y < 2 * 2 powi e" using assms(1,2) by (simp_all add: powi_succ)
  then have "1 * 2 ^ 52 \<le> y / 2 powi e * 2 ^ 52 \<and> y / 2 powi e * 2 ^ 52 < 2 * (2 ^ 52 :: real)"
    by (intro quot_bounds) simp_all
  then show ?thesis unfolding u quot_scale by simp
qed

lemma quot_subnormal:
  assumes "0 < y" and "y < 2 powi f64_emin"
  shows "f64_ulp y = 2 powi (f64_emin - 52) \<and> 0 \<le> y / f64_ulp y \<and> y / f64_ulp y < 2 ^ 52"
proof -
  have u: "f64_ulp y = 2 powi (f64_emin - 52)"
    by (simp add: f64_ulp_def f64_expo_subnormal [OF assms])
  have "0 * 2 powi f64_emin \<le> y" "y < 1 * 2 powi f64_emin" using assms by simp_all
  then have "0 * 2 ^ 52 \<le> y / 2 powi f64_emin * 2 ^ 52 \<and>
             y / 2 powi f64_emin * 2 ^ 52 < 1 * (2 ^ 52 :: real)"
    by (intro quot_bounds) simp_all
  then show ?thesis unfolding u quot_scale by simp
qed

lemma of_int_quot: "0 < u \<Longrightarrow> (of_int n * u) / u = (of_int n :: real)"
  by simp

text \<open>Numbers with a 53-bit significand are kept.\<close>

lemma f64_val_normal_fix:
  assumes "2 ^ 52 \<le> n" and "n < 2 ^ 53" and "f64_emin - 52 \<le> k"
  shows "f64_val (of_int n * 2 powi k) = of_int n * 2 powi k"
proof -
  let ?y = "of_int n * (2::real) powi k"
  have p: "0 < (2::real) powi k" by simp
  have e1: "(2::real) powi (k + 52 + 1) = 2 ^ 53 * 2 powi k" by (simp add: power_int_add)
  have "(2::real) ^ 52 \<le> of_int n" using assms(1) by (metis of_int_le_iff of_int_numeral of_int_power)
  then have lo: "2 powi (k + 52) \<le> ?y" unfolding powi_52 using p by (rule mult_right_mono [OF _ less_imp_le])
  have "of_int n < (2::real) ^ 53" using assms(2) by (metis of_int_less_iff of_int_numeral of_int_power)
  then have hi: "?y < 2 powi (k + 52 + 1)" unfolding e1 using p by (rule mult_strict_right_mono)
  have "f64_emin \<le> k + 52" using assms(3) by linarith
  then have "f64_ulp ?y = 2 powi (k + 52 - 52)" using quot_normal [OF lo hi] by blast
  then have "f64_ulp ?y = 2 powi k" by simp
  then have "?y / f64_ulp ?y = of_int n" using p by (simp only: of_int_quot)
  then show ?thesis by (rule f64_val_fix)
qed

lemma f64_val_subnormal_fix:
  assumes "0 \<le> n" and "n < 2 ^ 52"
  shows "f64_val (of_int n * 2 powi (f64_emin - 52)) = of_int n * 2 powi (f64_emin - 52)"
proof (cases "n = 0")
  case True
  then show ?thesis by (simp add: f64_val_0)
next
  case False
  define k where "k = f64_emin - 52"
  let ?y = "of_int n * (2::real) powi k"
  have p: "0 < (2::real) powi k" by simp
  have n: "0 < n" using assms(1) False by simp
  then have pos: "0 < ?y" using p by simp
  have e: "(2::real) powi f64_emin = 2 ^ 52 * 2 powi k"
    using powi_52 [of k] by (simp add: k_def)
  have "of_int n < (2::real) ^ 52" using assms(2) by (metis of_int_less_iff of_int_numeral of_int_power)
  then have "?y < 2 powi f64_emin" unfolding e using p by (rule mult_strict_right_mono)
  then have "f64_ulp ?y = 2 powi k" using quot_subnormal [OF pos] by (simp add: k_def)
  then have "?y / f64_ulp ?y = of_int n" using p by (simp only: of_int_quot)
  then have "f64_val ?y = ?y" by (rule f64_val_fix)
  then show ?thesis by (simp only: k_def)
qed

lemma of_int_2p: "(of_int (2 ^ n) :: real) = 2 ^ n"
  by simp

lemma f64_val_idem:
  assumes "0 \<le> y"
  shows "f64_val (f64_val y) = f64_val y"
proof (cases "y = 0")
  case True
  then show ?thesis by (simp add: f64_val_0)
next
  case False
  then have pos: "0 < y" using assms by simp
  define e where "e = \<lfloor>log 2 y\<rfloor>"
  have b: "2 powi e \<le> y" "y < 2 powi (e + 1)"
    using floor_log2_bounds [OF pos] by (simp_all add: e_def)
  define n where "n = round_even (y / f64_ulp y)"
  show ?thesis
  proof (cases "f64_emin \<le> e")
    case True
    have q: "f64_ulp y = 2 powi (e - 52)" "2 ^ 52 \<le> y / f64_ulp y" "y / f64_ulp y < 2 ^ 53"
      using quot_normal [OF b True] by blast+
    have v: "f64_val y = of_int n * 2 powi (e - 52)"
      by (simp add: f64_val_def n_def q(1))
    have lo: "2 ^ 52 \<le> n"
      unfolding n_def using q(2) by (intro round_even_ge) (simp only: of_int_2p)
    have hi: "n \<le> 2 ^ 53"
      unfolding n_def using q(3) by (intro round_even_le) (simp only: of_int_2p less_imp_le)
    show ?thesis
    proof (cases "n < 2 ^ 53")
      case True
      have "f64_emin - 52 \<le> e - 52" using \<open>f64_emin \<le> e\<close> by simp
      then show ?thesis unfolding v using lo True by (rule f64_val_normal_fix [rotated 2])
    next
      case False
      then have n: "n = 2 ^ 53" using hi by simp
      have "of_int n * (2::real) powi (e - 52) = of_int (2 ^ 52) * 2 powi (e - 52 + 1)"
        unfolding n powi_succ by simp
      moreover have "f64_val (of_int (2 ^ 52) * 2 powi (e - 52 + 1)) =
                     of_int (2 ^ 52) * 2 powi (e - 52 + 1)"
        using \<open>f64_emin \<le> e\<close> by (intro f64_val_normal_fix) simp_all
      ultimately show ?thesis unfolding v by simp
    qed
  next
    case False
    then have "e + 1 \<le> f64_emin" by simp
    then have "(2::real) powi (e + 1) \<le> 2 powi f64_emin"
      by (intro power_int_increasing) simp_all
    then have sub: "y < 2 powi f64_emin" using b(2) by linarith
    have q: "f64_ulp y = 2 powi (f64_emin - 52)" "0 \<le> y / f64_ulp y" "y / f64_ulp y < 2 ^ 52"
      using quot_subnormal [OF pos sub] by blast+
    have v: "f64_val y = of_int n * 2 powi (f64_emin - 52)"
      by (simp add: f64_val_def n_def q(1))
    have lo: "0 \<le> n"
      unfolding n_def using q(2) by (intro round_even_ge) simp
    have hi: "n \<le> 2 ^ 52"
      unfolding n_def using q(3) by (intro round_even_le) (simp only: of_int_2p less_imp_le)
    show ?thesis
    proof (cases "n < 2 ^ 52")
      case True
      show ?thesis unfolding v using lo True by (rule f64_val_subnormal_fix)
    next
      case False
      then have n: "n = 2 ^ 52" using hi by simp
      show ?thesis unfolding v n by (intro f64_val_normal_fix) simp_all
    qed
  qed
qed

lemma f64_expo_mono:
  assumes "0 < x" and "x \<le> y"
  shows "f64_expo x \<le> f64_expo y"
proof -
  have "log 2 x \<le> log 2 y" using assms by simp
  then have "\<lfloor>log 2 x\<rfloor> \<le> \<lfloor>log 2 y\<rfloor>" by (rule floor_mono)
  then show ?thesis using assms by (simp add: f64_expo_def)
qed

text \<open>A positive number rounds to at most the next power of two above it.\<close>

lemma f64_val_le_binade:
  assumes "0 < y"
  shows "f64_val y \<le> 2 powi (f64_expo y + 1)"
proof -
  define e where "e = \<lfloor>log 2 y\<rfloor>"
  have b: "2 powi e \<le> y" "y < 2 powi (e + 1)"
    using floor_log2_bounds [OF assms] by (simp_all add: e_def)
  have u: "f64_ulp y = 2 powi (f64_expo y - 52)" by (simp add: f64_ulp_def)
  have "y / f64_ulp y < 2 ^ 53"
  proof (cases "f64_emin \<le> e")
    case True
    then show ?thesis using quot_normal [OF b] by blast
  next
    case False
    then have "e + 1 \<le> f64_emin" by simp
    then have "(2::real) powi (e + 1) \<le> 2 powi f64_emin"
      by (intro power_int_increasing) simp_all
    then have "y < 2 powi f64_emin" using b(2) by linarith
    then have "y / f64_ulp y < 2 ^ 52" using quot_subnormal [OF assms] by blast
    then show ?thesis by simp
  qed
  then have "round_even (y / f64_ulp y) \<le> 2 ^ 53"
    by (intro round_even_le) (simp only: of_int_2p less_imp_le)
  then have "(of_int (round_even (y / f64_ulp y)) :: real) \<le> 2 ^ 53"
    by (metis of_int_le_iff of_int_2p)
  then have "f64_val y \<le> 2 ^ 53 * 2 powi (f64_expo y - 52)"
    unfolding f64_val_def u by (intro mult_right_mono) simp_all
  also have "\<dots> = 2 powi (f64_expo y - 52 + 53)"
    by (simp only: powi_53)
  also have "f64_expo y - 52 + 53 = f64_expo y + 1"
    by arith
  finally show ?thesis .
qed

text \<open>A normal number rounds to at least the power of two below it.\<close>

lemma f64_val_ge_binade:
  assumes "2 powi f64_emin \<le> y"
  shows "2 powi (f64_expo y) \<le> f64_val y"
proof -
  have "0 < (2::real) powi f64_emin" by simp
  then have pos: "0 < y" using assms by linarith
  define e where "e = \<lfloor>log 2 y\<rfloor>"
  have b: "2 powi e \<le> y" "y < 2 powi (e + 1)"
    using floor_log2_bounds [OF pos] by (simp_all add: e_def)
  have "f64_emin < e + 1"
  proof (rule ccontr)
    assume "\<not> f64_emin < e + 1"
    then have "(2::real) powi (e + 1) \<le> 2 powi f64_emin"
      by (intro power_int_increasing) simp_all
    then show False using b(2) assms by linarith
  qed
  then have n: "f64_emin \<le> e" by simp
  have ex: "f64_expo y = e" using b n by (rule f64_expo_normal)
  have q: "f64_ulp y = 2 powi (e - 52)" "2 ^ 52 \<le> y / f64_ulp y"
    using quot_normal [OF b n] by blast+
  have "2 ^ 52 \<le> round_even (y / f64_ulp y)"
    using q(2) by (intro round_even_ge) (simp only: of_int_2p)
  then have "(2::real) ^ 52 \<le> of_int (round_even (y / f64_ulp y))"
    by (metis of_int_le_iff of_int_2p)
  then have "2 ^ 52 * 2 powi (e - 52) \<le> f64_val y"
    unfolding f64_val_def q(1) by (intro mult_right_mono) simp_all
  moreover have "(2::real) ^ 52 * 2 powi (e - 52) = 2 powi e"
    using powi_52 [of "e - 52"] by simp
  ultimately show ?thesis by (simp add: ex)
qed

lemma f64_val_mono:
  assumes "0 \<le> x" and "x \<le> y"
  shows "f64_val x \<le> f64_val y"
proof (cases "x = 0")
  case True
  then show ?thesis using assms f64_val_nonneg [of y] by (simp add: f64_val_0)
next
  case False
  then have x: "0 < x" using assms by simp
  then have y: "0 < y" using assms by linarith
  have le: "f64_expo x \<le> f64_expo y" using x assms(2) by (rule f64_expo_mono)
  show ?thesis
  proof (cases "f64_expo x = f64_expo y")
    case True
    then have u: "f64_ulp x = f64_ulp y" by (simp add: f64_ulp_def)
    have "x / f64_ulp y \<le> y / f64_ulp y"
      using assms(2) f64_ulp_pos [of y] by (simp add: divide_right_mono)
    then have "round_even (x / f64_ulp y) \<le> round_even (y / f64_ulp y)"
      by (rule round_even_mono)
    then have "(of_int (round_even (x / f64_ulp y)) :: real) \<le> of_int (round_even (y / f64_ulp y))"
      by simp
    then show ?thesis
      unfolding f64_val_def u using f64_ulp_pos [of y] by (intro mult_right_mono) simp_all
  next
    case False
    then have lt: "f64_expo x + 1 \<le> f64_expo y" using le by simp
    then have "f64_emin < f64_expo y" using le by (simp add: f64_expo_def)
    then have "f64_expo y = \<lfloor>log 2 y\<rfloor>" using y by (simp add: f64_expo_def)
    then have "2 powi (f64_expo y) \<le> y" using floor_log2_bounds [OF y] by simp
    moreover have "(2::real) powi f64_emin \<le> 2 powi (f64_expo y)"
      using \<open>f64_emin < f64_expo y\<close> by (intro power_int_increasing) simp_all
    ultimately have "2 powi f64_emin \<le> y" by linarith
    then have "2 powi (f64_expo y) \<le> f64_val y" by (rule f64_val_ge_binade)
    moreover have "f64_val x \<le> 2 powi (f64_expo x + 1)" using x by (rule f64_val_le_binade)
    moreover have "(2::real) powi (f64_expo x + 1) \<le> 2 powi (f64_expo y)"
      using lt by (intro power_int_increasing) simp_all
    ultimately show ?thesis by linarith
  qed
qed

lemma thr_eq: "f64_threshold = (2 ^ 54 - 1) * 2 powi 970"
proof -
  have "(2::real) ^ 1024 = 2 ^ 54 * 2 ^ 970" by (simp only: power_add [symmetric]) simp
  then show ?thesis by (simp add: f64_threshold_def algebra_simps)
qed

lemma p970: "(1::real) \<le> 2 powi 970"
  by (rule one_le_power_int) simp_all

lemma f64_threshold_big: "2 ^ 53 < f64_threshold"
proof -
  have "((2::real) ^ 54 - 1) * 1 \<le> (2 ^ 54 - 1) * 2 powi 970"
    using p970 by (intro mult_left_mono) simp_all
  then show ?thesis unfolding thr_eq by simp
qed

lemma f64_threshold_pos: "0 < f64_threshold"
proof -
  have "(0::real) < 2 ^ 53" by simp
  then show ?thesis using f64_threshold_big by (rule less_trans)
qed

text \<open>Below the overflow threshold a non-negative number rounds to at most the largest
  finite number.\<close>

lemma f64_val_below_threshold:
  assumes "0 \<le> y" and "y < f64_threshold"
  shows "f64_val y < f64_threshold"
proof -
  define p where "p = (2::real) powi 970"
  have p: "0 < p" by (simp add: p_def)
  have p1: "(2::real) powi 971 = 2 * p" using powi_succ [of 970] by (simp add: p_def)
  have p53: "(2::real) powi 1023 = 2 ^ 53 * p" using powi_53 [of 970] by (simp add: p_def)
  have p54: "(2::real) powi (1023 + 1) = 2 ^ 54 * p" unfolding powi_succ p53 by simp
  have thr: "f64_threshold = (2 ^ 54 - 1) * p" by (simp add: thr_eq p_def)
  define m where "m = (2 ^ 53 - 1) * (2 * p)"
  have m_fix: "f64_val m = m"
  proof -
    have a: "f64_val (of_int (2 ^ 53 - 1) * 2 powi 971) = of_int (2 ^ 53 - 1) * 2 powi 971"
      by (intro f64_val_normal_fix) (simp_all add: f64_emin_def)
    have b: "of_int (2 ^ 53 - 1) * (2::real) powi 971 = m"
      unfolding m_def p1 by simp
    show ?thesis using a unfolding b .
  qed
  have m_lt: "m < f64_threshold" unfolding m_def thr using p by simp
  show ?thesis
  proof (cases "y \<le> m")
    case True
    then have "f64_val y \<le> f64_val m" using assms(1) by (intro f64_val_mono)
    then show ?thesis using m_fix m_lt by linarith
  next
    case False
    then have ym: "m < y" by simp
    have "2 ^ 53 * p \<le> m" unfolding m_def using p by simp
    then have lo: "2 powi 1023 \<le> y" unfolding p53 using ym by linarith
    have "f64_threshold < 2 ^ 54 * p" unfolding thr using p by simp
    then have hi: "y < 2 powi (1023 + 1)" unfolding p54 using assms(2) by linarith
    have ulp: "f64_ulp y = 2 * p"
      using quot_normal [OF lo hi] p1 by (simp add: f64_emin_def)
    define q where "q = y / (2 * p)"
    have "(2 ^ 53 - 1) < q" using ym p by (simp add: q_def m_def less_divide_eq)
    moreover have "q < 2 ^ 53 - 1 / 2"
      using assms(2) p unfolding thr q_def by (simp add: divide_less_eq algebra_simps)
    ultimately have "\<bar>q - of_int (2 ^ 53 - 1)\<bar> < 1 / 2" by simp
    then have "round_even q = 2 ^ 53 - 1" by (rule round_even_near)
    then have "f64_val y = m" by (simp add: f64_val_def ulp q_def m_def)
    then show ?thesis using m_lt by simp
  qed
qed

lemma f64_round_finite:
  assumes "0 \<le> y" and "y < f64_threshold"
  shows "f64_round y = Finite (f64_val y)"
  using assms f64_threshold_pos by (simp add: f64_round_def)

lemma f64_round_idem:
  assumes "0 \<le> y" and "f64_round y = Finite v"
  shows "0 \<le> v \<and> f64_round v = Finite v"
proof -
  have y: "y < f64_threshold" using assms by (auto simp: f64_round_def split: if_splits)
  then have v: "v = f64_val y" using assms by (simp add: f64_round_finite)
  have "0 \<le> v" unfolding v using assms(1) by (rule f64_val_nonneg)
  moreover have "v < f64_threshold" unfolding v using assms(1) y by (rule f64_val_below_threshold)
  moreover have "f64_val v = v" unfolding v using assms(1) by (rule f64_val_idem)
  ultimately show ?thesis by (simp add: f64_round_finite)
qed

lemma f64_round_mono:
  assumes "0 \<le> x" and "x \<le> y"
  shows "f64_le (f64_round x) (f64_round y)"
proof -
  have t: "0 < f64_threshold" by (rule f64_threshold_pos)
  show ?thesis
  proof (cases "y < f64_threshold")
    case True
    then show ?thesis
      using assms t f64_val_mono [OF assms] by (simp add: f64_round_def)
  next
    case False
    then show ?thesis using assms t by (simp add: f64_round_def)
  qed
qed

lemma f64_round_0: "f64_round 0 = Finite 0"
  using f64_threshold_pos by (simp add: f64_round_def f64_val_0)

lemma f64_round_nonneg: "0 \<le> y \<Longrightarrow> f64_le (Finite 0) (f64_round y)"
  using f64_round_mono [of 0 y] by (simp add: f64_round_0)

lemma f64_val_pow2: "f64_emin \<le> k \<Longrightarrow> f64_val (2 powi k) = 2 powi k"
proof -
  assume k: "f64_emin \<le> k"
  have "f64_val (of_int (2 ^ 52) * 2 powi (k - 52)) = of_int (2 ^ 52) * 2 powi (k - 52)"
    using k by (intro f64_val_normal_fix) simp_all
  moreover have "of_int (2 ^ 52) * (2::real) powi (k - 52) = 2 powi k"
    using powi_52 [of "k - 52"] by simp
  ultimately show ?thesis by simp
qed

lemma f64_val_1: "f64_val 1 = 1"
  using f64_val_pow2 [of 0] by (simp add: f64_emin_def)

lemma f64_val_2: "f64_val 2 = 2"
  using f64_val_pow2 [of 1] by (simp add: f64_emin_def)

lemma f64_val_4: "f64_val 4 = 4"
  using f64_val_pow2 [of 2] by (simp add: f64_emin_def)

lemma f64_val_half: "f64_val (1 / 2) = 1 / 2"
  using f64_val_pow2 [of "- 1"] by (simp add: f64_emin_def)

lemma f64_val_1_eps: "f64_val (1 + spacing_1) = 1 + spacing_1"
proof -
  have a: "f64_val (of_int (2 ^ 52 + 1) * 2 powi (- 52)) = of_int (2 ^ 52 + 1) * 2 powi (- 52)"
    by (intro f64_val_normal_fix) (simp_all add: f64_emin_def)
  have b: "of_int (2 ^ 52 + 1) * (2::real) powi (- 52) = 1 + spacing_1"
    by (simp add: spacing_1_def power_int_minus field_simps)
  show ?thesis using a unfolding b .
qed

lemma round_even_error: "\<bar>of_int (round_even q) - q\<bar> \<le> 1 / 2"
proof -
  have "of_int \<lfloor>q\<rfloor> \<le> q" "q < of_int \<lfloor>q\<rfloor> + 1" by linarith+
  then show ?thesis by (auto simp: round_even_def Let_def abs_le_iff)
qed

lemma f64_val_error: "\<bar>f64_val y - y\<bar> \<le> f64_ulp y / 2"
proof -
  define u where "u = f64_ulp y"
  have u: "0 < u" by (simp add: u_def f64_ulp_pos)
  define q where "q = y / u"
  have y: "y = q * u" using u by (simp add: q_def)
  have fv: "f64_val y = of_int (round_even q) * u" by (simp add: f64_val_def u_def q_def)
  have "f64_val y - y = (of_int (round_even q) - q) * u"
    unfolding fv by (subst y) (simp add: algebra_simps)
  then have "\<bar>f64_val y - y\<bar> = \<bar>of_int (round_even q) - q\<bar> * u"
    using u by (simp add: abs_mult)
  also have "\<dots> \<le> 1 / 2 * u" using round_even_error [of q] u by (intro mult_right_mono) simp_all
  finally show ?thesis by (simp add: u_def)
qed

text \<open>A normal number and its exponent.\<close>

lemma normal_binade:
  assumes "2 powi f64_emin \<le> y"
  obtains e where "f64_emin \<le> e" and "2 powi e \<le> y" and "y < 2 powi (e + 1)"
    and "f64_ulp y = 2 powi (e - 52)"
proof -
  have "0 < (2::real) powi f64_emin" by simp
  then have pos: "0 < y" using assms by linarith
  define e where "e = \<lfloor>log 2 y\<rfloor>"
  have b: "2 powi e \<le> y" "y < 2 powi (e + 1)"
    using floor_log2_bounds [OF pos] by (simp_all add: e_def)
  have "f64_emin < e + 1"
  proof (rule ccontr)
    assume "\<not> f64_emin < e + 1"
    then have "(2::real) powi (e + 1) \<le> 2 powi f64_emin"
      by (intro power_int_increasing) simp_all
    then show False using b(2) assms by linarith
  qed
  then have n: "f64_emin \<le> e" by simp
  have "f64_ulp y = 2 powi (e - 52)" using quot_normal [OF b n] by blast
  then show ?thesis using n b by (intro that)
qed

lemma f64_ulp_rel:
  assumes "2 powi f64_emin \<le> y"
  shows "f64_ulp y \<le> y / 2 ^ 52"
proof -
  obtain e where e: "2 powi e \<le> y" "f64_ulp y = 2 powi (e - 52)"
    using assms by (rule normal_binade)
  have "f64_ulp y = 2 powi e / 2 ^ 52" unfolding e(2) by (rule powi_split)
  also have "\<dots> \<le> y / 2 ^ 52" using e(1) by (intro divide_right_mono) simp_all
  finally show ?thesis .
qed

lemma f64_val_rel_error:
  assumes "2 powi f64_emin \<le> y"
  shows "\<bar>f64_val y - y\<bar> \<le> y / 2 ^ 53"
proof -
  have "\<bar>f64_val y - y\<bar> \<le> f64_ulp y / 2" by (rule f64_val_error)
  also have "\<dots> \<le> (y / 2 ^ 52) / 2" using f64_ulp_rel [OF assms] by (intro divide_right_mono) simp_all
  also have "\<dots> = y / 2 ^ 53" by simp
  finally show ?thesis .
qed

lemma emin_le_1: "(2::real) powi f64_emin \<le> 1"
proof -
  have "(2::real) powi f64_emin \<le> 2 powi 0"
    by (intro power_int_increasing) (simp_all add: f64_emin_def)
  then show ?thesis by simp
qed

text \<open>A kept normal number is an integer multiple of its unit.\<close>

lemma kept_normal:
  assumes "f64_val z = z" and "2 powi f64_emin \<le> z"
  obtains e n where "f64_emin \<le> e" and "2 powi e \<le> z" and "z < 2 powi (e + 1)"
    and "z = of_int n * 2 powi (e - 52)" and "2 ^ 52 \<le> n" and "n < 2 ^ 53"
proof -
  obtain e where e: "f64_emin \<le> e" "2 powi e \<le> z" "z < 2 powi (e + 1)"
      "f64_ulp z = 2 powi (e - 52)"
    using assms(2) by (rule normal_binade)
  define u where "u = (2::real) powi (e - 52)"
  have u: "0 < u" by (simp add: u_def)
  define n where "n = round_even (z / u)"
  have zn: "z = of_int n * u" using assms(1) by (simp add: f64_val_def e(4) n_def u_def)
  then have q: "z / u = of_int n" using u by simp
  have qn: "2 ^ 52 \<le> z / f64_ulp z" "z / f64_ulp z < 2 ^ 53"
    using quot_normal [OF e(2,3,1)] by blast+
  have uz: "f64_ulp z = u" by (simp add: e(4) u_def)
  have "(2::real) ^ 52 \<le> of_int n" "of_int n < (2::real) ^ 53"
    using qn unfolding uz q by simp_all
  then have "2 ^ 52 \<le> n" "n < 2 ^ 53"
    by (metis of_int_le_iff of_int_2p, metis of_int_less_iff of_int_2p)
  then show ?thesis using e zn by (intro that) (simp_all add: u_def)
qed

lemma pow3_le: "8 \<le> z \<Longrightarrow> 2 powi e \<le> z \<Longrightarrow> z < 2 powi (e + 1) \<Longrightarrow> 3 \<le> e"
  for z :: real
proof (rule ccontr)
  assume z: "8 \<le> z" "z < 2 powi (e + 1)" and "\<not> 3 \<le> e"
  then have "e + 1 \<le> 3" by simp
  then have "(2::real) powi (e + 1) \<le> 2 powi 3" by (intro power_int_increasing) simp_all
  then show False using z by simp
qed

text \<open>Just below a kept number of size at least 8, rounding goes back up to it.\<close>

lemma f64_val_below:
  assumes "f64_val z = z" and "8 \<le> z" and "0 \<le> d" and "d \<le> 1 / 2 ^ 52"
  shows "f64_val (z - d) = z"
proof -
  have "2 powi f64_emin \<le> z" using emin_le_1 assms(2) by linarith
  with assms(1) obtain e n where e: "f64_emin \<le> e" "2 powi e \<le> z" "z < 2 powi (e + 1)"
    and zn: "z = of_int n * 2 powi (e - 52)" and n: "2 ^ 52 \<le> n" "n < 2 ^ 53"
    by (rule kept_normal)
  have e3: "3 \<le> e" using assms(2) e(2,3) by (rule pow3_le)
  define u where "u = (2::real) powi (e - 52)"
  have u: "0 < u" by (simp add: u_def)
  have "(2::real) powi (3 - 52) \<le> 2 powi (e - 52)" using e3 by (intro power_int_increasing) simp_all
  then have u49: "1 / 2 ^ 49 \<le> u" by (simp add: u_def power_int_minus inverse_eq_divide)
  have "d \<le> (1 / 8) * (1 / 2 ^ 49)" using assms(4) by simp
  also have "\<dots> \<le> (1 / 8) * u" using u49 by (intro mult_left_mono) simp_all
  finally have du: "d \<le> u / 8" by simp
  have z: "z = of_int n * u" using zn by (simp add: u_def)
  define t where "t = d / u"
  have t: "0 \<le> t" "t \<le> 1 / 8" using du u assms(3) by (simp_all add: t_def divide_le_eq)
  have pe: "(2::real) powi e = 2 ^ 52 * u" using powi_52 [of "e - 52"] by (simp add: u_def)
  show ?thesis
  proof (cases "n = 2 ^ 52")
    case False
    then have "2 ^ 52 + 1 \<le> n" using n(1) by simp
    then have "(2::real) ^ 52 + 1 \<le> of_int n"
      by (metis of_int_le_iff of_int_add of_int_2p of_int_1)
    then have "(2 ^ 52 + 1) * u \<le> z" unfolding z using u by (intro mult_right_mono) simp_all
    then have lo: "2 powi e \<le> z - d" unfolding pe using du u by (simp add: algebra_simps)
    have hi: "z - d < 2 powi (e + 1)" using e(3) assms(3) by linarith
    have uy: "f64_ulp (z - d) = u" using quot_normal [OF lo hi e(1)] by (simp add: u_def)
    have "(z - d) / u = of_int n - t"
      unfolding z t_def using u by (simp add: diff_divide_distrib)
    then have "\<bar>(z - d) / u - of_int n\<bar> < 1 / 2" using t by simp
    then have r: "round_even ((z - d) / u) = n" by (rule round_even_near)
    have "f64_val (z - d) = of_int (round_even ((z - d) / f64_ulp (z - d))) * f64_ulp (z - d)"
      by (simp only: f64_val_def)
    also have "\<dots> = of_int n * u" by (simp only: uy r)
    finally show ?thesis by (simp only: z [symmetric])
  next
    case True
    then have zp: "z = 2 powi e" using z pe by simp
    show ?thesis
    proof (cases "d = 0")
      case True
      then show ?thesis using assms(1) by simp
    next
      case False
      then have d: "0 < d" using assms(3) by simp
      have "d \<le> 4" using assms(4) by (rule order_trans) simp
      then have "d \<le> z / 2" using assms(2) by linarith
      then have "z / 2 \<le> z - d" by linarith
      moreover have "(2::real) powi (e - 1) = 2 powi e / 2" by (simp add: power_int_diff)
      ultimately have lo: "2 powi (e - 1) \<le> z - d" by (simp add: zp)
      have hi: "z - d < 2 powi (e - 1 + 1)" using d by (simp add: zp)
      have e1: "f64_emin \<le> e - 1" using e3 by (simp add: f64_emin_def)
      have "(2::real) powi (e - 1 - 52) = 2 powi (e - 52) / 2" 
        using power_int_diff [of "2::real" "e - 52" 1] by (simp add: algebra_simps)
      then have uy: "f64_ulp (z - d) = u / 2" using quot_normal [OF lo hi e1] by (simp add: u_def)
      have "(z - d) / (u / 2) = 2 * (z / u) - 2 * t"
        unfolding t_def using u by (simp add: diff_divide_distrib mult.commute)
      also have "z / u = 2 ^ 52" using pe u by (simp add: zp)
      finally have q: "(z - d) / (u / 2) = 2 ^ 53 - 2 * t" by simp
      have "\<bar>(z - d) / (u / 2) - of_int (2 ^ 53)\<bar> < 1 / 2" unfolding q using t by simp
      then have r: "round_even ((z - d) / (u / 2)) = 2 ^ 53" by (rule round_even_near)
      have "f64_val (z - d) = of_int (round_even ((z - d) / f64_ulp (z - d))) * f64_ulp (z - d)"
        by (simp only: f64_val_def)
      also have "\<dots> = of_int (2 ^ 53) * (u / 2)" by (simp only: uy r)
      also have "\<dots> = 2 ^ 52 * u" by simp
      also have "\<dots> = z" by (simp only: zp pe)
      finally show ?thesis .
    qed
  qed
qed

section \<open>The conditional intensity function on binary64\<close>

lemma spacing_1_pos: "0 < spacing_1"
  by (simp add: spacing_1_def)

lemma spacing_1_le: "spacing_1 \<le> 1"
  by (simp add: spacing_1_def)

lemma one_plus_eps: "f64_add (Finite 1) (Finite spacing_1) = Finite (1 + spacing_1)"
proof -
  have "1 + spacing_1 < 2 ^ 53" using spacing_1_le by simp
  then have "1 + spacing_1 < f64_threshold" using f64_threshold_big by linarith
  moreover have "0 \<le> 1 + spacing_1" using spacing_1_pos by simp
  ultimately show ?thesis by (simp add: f64_round_finite f64_val_1_eps)
qed

lemma qu_f64_unfold:
  "qu_f64 z = f64_log (f64_add (Finite (1 + spacing_1)) (f64_exp z))"
  by (simp add: qu_f64_def Let_def one_plus_eps del: f64_add.simps(1))

lemma f64_le_Finite_cases:
  assumes "f64_le (Finite c) a"
  obtains v where "a = Finite v" and "c \<le> v" | "a = PosInf"
  using assms by (cases a) auto

lemma f64_exp_nonneg: "f64_le (Finite 0) (f64_exp (Finite z))"
  by (simp add: f64_round_nonneg)

lemma f64_exp_mono: "z1 \<le> z2 \<Longrightarrow> f64_le (f64_exp (Finite z1)) (f64_exp (Finite z2))"
  by (simp add: f64_round_mono)

lemma f64_add_const_mono:
  assumes "0 \<le> c" and "f64_le (Finite 0) a" and "f64_le a b"
  shows "f64_le (f64_add (Finite c) a) (f64_add (Finite c) b)"
proof -
  from assms(2) show ?thesis
  proof (cases rule: f64_le_Finite_cases)
    case (1 v)
    show ?thesis
    proof (cases b)
      case (Finite w)
      then have "v \<le> w" using assms(3) 1 by simp
      then have "f64_le (f64_round (c + v)) (f64_round (c + w))"
        using assms(1) 1 by (intro f64_round_mono) simp_all
      then show ?thesis using 1 Finite by simp
    next
      case PosInf
      have "f64_le (f64_round (c + v)) PosInf" by (cases "f64_round (c + v)") (auto simp: f64_round_def split: if_splits)
      then show ?thesis using 1 PosInf by simp
    qed (use assms(3) 1 in auto)
  next
    case 2
    then have "b = PosInf" using assms(3) by (cases b) auto
    then show ?thesis using 2 by simp
  qed
qed

lemma f64_add_ge_const:
  assumes "0 \<le> c" and "f64_round c = Finite c" and "f64_le (Finite 0) a"
  shows "f64_le (Finite c) (f64_add (Finite c) a)"
proof -
  have "f64_le (f64_add (Finite c) (Finite 0)) (f64_add (Finite c) a)"
    using assms(1) _ assms(3) by (rule f64_add_const_mono) simp
  then show ?thesis using assms(2) by simp
qed

lemma round_1_eps: "f64_round (1 + spacing_1) = Finite (1 + spacing_1)"
  using one_plus_eps by simp

lemma qu_arg_ge: "f64_le (Finite (1 + spacing_1)) (f64_add (Finite (1 + spacing_1)) (f64_exp (Finite z)))"
  using spacing_1_pos by (intro f64_add_ge_const round_1_eps f64_exp_nonneg) simp

lemma ln_1_eps_lower: "2 powi (- 53) \<le> ln (1 + spacing_1)"
proof -
  have "spacing_1 - spacing_1\<^sup>2 \<le> ln (1 + spacing_1)"
    using spacing_1_pos spacing_1_le by (intro ln_one_plus_pos_lower_bound) simp_all
  moreover have "2 powi (- 53) \<le> spacing_1 - spacing_1\<^sup>2"
    by (simp add: spacing_1_def power_int_minus power2_eq_square field_simps)
  ultimately show ?thesis by linarith
qed

lemma f64_round_pow2_small: "f64_round (2 powi (- 53)) = Finite (2 powi (- 53))"
proof -
  have "(2::real) powi (- 53) \<le> 2 powi 0" by (intro power_int_increasing) simp_all
  then have "(2::real) powi (- 53) < f64_threshold" using f64_threshold_big by simp
  then show ?thesis
    using f64_val_pow2 [of "- 53"] by (simp add: f64_round_finite f64_emin_def)
qed

lemma f64_log_pos:
  assumes "f64_le (Finite (1 + spacing_1)) a"
  shows "f64_less (Finite 0) (f64_log a)"
  using assms
proof (cases rule: f64_le_Finite_cases)
  case (1 v)
  have v: "0 < v" using 1(2) spacing_1_pos by linarith
  have "ln (1 + spacing_1) \<le> ln v" using 1(2) spacing_1_pos by (intro ln_mono) simp_all
  then have l: "2 powi (- 53) \<le> ln v" using ln_1_eps_lower by linarith
  have "f64_le (f64_round (2 powi (- 53))) (f64_round (ln v))"
    using l by (intro f64_round_mono) simp_all
  then have "f64_le (Finite (2 powi (- 53))) (f64_round (ln v))"
    by (simp only: f64_round_pow2_small)
  then have "f64_less (Finite 0) (f64_round (ln v))"
    by (cases "f64_round (ln v)") (auto intro: less_le_trans [of 0 "2 powi (- 53)"])
  then show ?thesis using 1 v by simp
next
  case 2
  then show ?thesis by simp
qed

lemma f64_log_mono:
  assumes "f64_le (Finite (1 + spacing_1)) a" and "f64_le a b"
  shows "f64_le (f64_log a) (f64_log b)"
  using assms(1)
proof (cases rule: f64_le_Finite_cases)
  case (1 v)
  have v: "0 < v" "1 \<le> v" using 1(2) spacing_1_pos by linarith+
  have fin: "f64_le (f64_round (ln v)) PosInf"
    by (cases "f64_round (ln v)") (auto simp: f64_round_def split: if_splits)
  show ?thesis
  proof (cases b)
    case (Finite w)
    then have w: "v \<le> w" using assms(2) 1 by simp
    then have "f64_le (f64_round (ln v)) (f64_round (ln w))"
      using v by (intro f64_round_mono) (simp_all add: ln_mono)
    then show ?thesis using 1 Finite v w by simp
  next
    case PosInf
    then show ?thesis using 1 v fin by simp
  qed (use assms(2) 1 in auto)
next
  case 2
  then have "b = PosInf" using assms(2) by (cases b) auto
  then show ?thesis using 2 by simp
qed

text \<open>
  C2. On binary64 \<open>qu\<close> is positive at every number, and it is increasing in the weak
  sense: a smaller argument never gives a larger result. (It is not strictly
  increasing: see \<open>qu_f64_not_strict\<close> below.)
\<close>

theorem qu_f64_pos_mono:
  "f64_less (Finite 0) (qu_f64 (Finite z)) \<and>
   (z1 \<le> z2 \<longrightarrow> f64_le (qu_f64 (Finite z1)) (qu_f64 (Finite z2)))"
proof
  show "f64_less (Finite 0) (qu_f64 (Finite z))"
    unfolding qu_f64_unfold by (intro f64_log_pos qu_arg_ge)
  show "z1 \<le> z2 \<longrightarrow> f64_le (qu_f64 (Finite z1)) (qu_f64 (Finite z2))"
  proof
    assume "z1 \<le> z2"
    then have "f64_le (f64_exp (Finite z1)) (f64_exp (Finite z2))" by (rule f64_exp_mono)
    then have "f64_le (f64_add (Finite (1 + spacing_1)) (f64_exp (Finite z1)))
                      (f64_add (Finite (1 + spacing_1)) (f64_exp (Finite z2)))"
      using spacing_1_pos by (intro f64_add_const_mono f64_exp_nonneg) simp_all
    then show "f64_le (qu_f64 (Finite z1)) (qu_f64 (Finite z2))"
      unfolding qu_f64_unfold by (intro f64_log_mono qu_arg_ge)
  qed
qed

theorem qu_f64_pos_mono_witness:
  "(0::real) \<le> 1 \<and> f64_less (Finite 0) (qu_f64 (Finite 0)) \<and>
   f64_le (qu_f64 (Finite 0)) (qu_f64 (Finite 1))"
  using qu_f64_pos_mono [of 0 0 1] by simp

lemma exp_1_ge: "(5 / 2 :: real) \<le> exp 1"
  using exp_lower_Taylor_quadratic [of "1::real"] by simp

lemma exp_1000_overflows: "f64_threshold \<le> exp 1000"
proof -
  have "(5 / 2 :: real) ^ 4 \<le> exp 1 ^ 4" using exp_1_ge by (intro power_mono) simp_all
  then have "(2::real) ^ 5 \<le> exp 1 ^ 4" by (simp add: power4_eq_xxxx)
  then have "((2::real) ^ 5) ^ 250 \<le> (exp 1 ^ 4) ^ 250" by (intro power_mono) simp_all
  then have "(2::real) ^ 1250 \<le> exp 1 ^ 1000" by (simp only: power_mult [symmetric]) simp
  moreover have "exp (1000::real) = exp 1 ^ 1000"
    using exp_of_nat_mult [of 1000 "1::real"] by simp
  moreover have "(2::real) ^ 1024 \<le> 2 ^ 1250" by (intro power_increasing) simp_all
  moreover have "f64_threshold \<le> 2 ^ 1024" by (simp add: f64_threshold_def)
  ultimately show ?thesis by linarith
qed

text \<open>
  C4. The claim is that \<open>qu(z)\<close> is finite for every \<open>z\<close> with \<open>|z| \<le> 1000\<close>. At
  \<open>z = 1000.0\<close> the code computes \<open>np.exp(1000.0)\<close>, which overflows to \<open>inf\<close>;
  \<open>1 + eps + inf\<close> is \<open>inf\<close> and \<open>np.log(inf)\<close> is \<open>inf\<close>. Nothing in \<open>qu\<close>
  saturates.
\<close>

theorem qu_f64_overflow: "qu_f64 (Finite 1000) = PosInf"
proof -
  have "f64_exp (Finite 1000) = PosInf"
    using exp_1000_overflows f64_threshold_pos
    by (simp add: f64_round_def)
  then show ?thesis
    by (simp add: qu_f64_def Let_def one_plus_eps del: f64_add.simps(1))
qed

text \<open>
  Below \<open>-50\<close> the exponential is less than a quarter of the spacing of the numbers
  around 1, and \<open>(1 + eps) + np.exp(z)\<close> rounds to \<open>1 + eps\<close>.
\<close>

lemma exp_small:
  fixes z :: real
  assumes "z \<le> - 50"
  shows "exp z \<le> 2 powi (- 54)"
proof -
  have "(5 / 2 :: real) ^ 4 \<le> exp 1 ^ 4" using exp_1_ge by (intro power_mono) simp_all
  then have "(2::real) ^ 5 \<le> exp 1 ^ 4" by (simp add: power4_eq_xxxx)
  then have "((2::real) ^ 5) ^ 12 \<le> (exp 1 ^ 4) ^ 12" by (intro power_mono) simp_all
  then have a: "(2::real) ^ 60 \<le> exp 1 ^ 48" by (simp only: power_mult [symmetric]) simp
  have b: "exp (1::real) ^ 48 \<le> exp 1 ^ 50" by (intro power_increasing) simp_all
  have c: "(2::real) ^ 54 \<le> 2 ^ 60" by (intro power_increasing) simp_all
  have "exp (50::real) = exp 1 ^ 50"
    using exp_of_nat_mult [of 50 "1::real"] by simp
  then have "(2::real) ^ 54 \<le> exp 50"
    using order_trans [OF c order_trans [OF a b]] by simp
  then have "inverse (exp (50::real)) \<le> inverse (2 ^ 54)"
    by (intro le_imp_inverse_le) simp_all
  then have "exp (- 50 :: real) \<le> 2 powi (- 54)"
    by (simp add: exp_minus power_int_minus)
  moreover have "exp z \<le> exp (- 50)" using assms by simp
  ultimately show ?thesis by linarith
qed

lemma absorb_small:
  assumes "0 \<le> e" and "e \<le> 2 powi (- 54)"
  shows "f64_round (1 + spacing_1 + e) = Finite (1 + spacing_1)"
proof -
  define y where "y = 1 + spacing_1 + e"
  have e4: "e \<le> 1 / 2 ^ 54" using assms(2) by (simp add: power_int_minus inverse_eq_divide)
  have s: "spacing_1 = 1 / 2 ^ 52" by (simp add: spacing_1_def)
  have lo: "2 powi 0 \<le> y" using assms(1) spacing_1_pos by (simp add: y_def)
  have hi: "y < 2 powi (0 + 1)" using e4 by (simp add: y_def s)
  have u: "f64_ulp y = 2 powi (0 - 52)"
    using quot_normal [OF lo hi] by (simp add: f64_emin_def)
  then have u': "f64_ulp y = 1 / 2 ^ 52" by (simp add: power_int_minus inverse_eq_divide)
  have "y / f64_ulp y = y * 2 ^ 52" unfolding u' by simp
  also have "\<dots> = 2 ^ 52 + 1 + e * 2 ^ 52" by (simp add: y_def s algebra_simps)
  finally have q: "y / f64_ulp y = 2 ^ 52 + 1 + e * 2 ^ 52" .
  have "e * 2 ^ 52 \<le> 1 / 4" using e4 by simp
  then have "\<bar>y / f64_ulp y - of_int (2 ^ 52 + 1)\<bar> < 1 / 2"
    unfolding q using assms(1) by simp
  then have r: "round_even (y / f64_ulp y) = 2 ^ 52 + 1" by (rule round_even_near)
  have "f64_val y = of_int (round_even (y / f64_ulp y)) * f64_ulp y"
    by (simp only: f64_val_def)
  also have "\<dots> = of_int (2 ^ 52 + 1) * f64_ulp y" by (simp only: r)
  also have "\<dots> = 1 + spacing_1" by (simp add: u' s)
  finally have v: "f64_val y = 1 + spacing_1" .
  have "y < 2 ^ 53" using hi by simp
  then have "y < f64_threshold" using f64_threshold_big by linarith
  moreover have "0 \<le> y" using lo by simp
  ultimately show ?thesis using v by (simp add: f64_round_finite y_def)
qed

lemma qu_f64_absorbed:
  assumes "z \<le> - 50"
  shows "qu_f64 (Finite z) = f64_log (Finite (1 + spacing_1))"
proof -
  have "f64_le (Finite 0) (f64_exp (Finite z))" by (rule f64_exp_nonneg)
  moreover have "f64_le (f64_exp (Finite z)) (Finite (2 powi (- 54)))"
  proof -
    have "f64_le (f64_round (exp z)) (f64_round (2 powi (- 54)))"
      using exp_small [OF assms] by (intro f64_round_mono) simp_all
    moreover have "f64_round (2 powi (- 54)) = Finite (2 powi (- 54))"
    proof -
      have "(2::real) powi (- 54) \<le> 2 powi 0" by (intro power_int_increasing) simp_all
      then have "(2::real) powi (- 54) < f64_threshold" using f64_threshold_big by simp
      then show ?thesis
        using f64_val_pow2 [of "- 54"]
        by (simp add: f64_round_finite f64_emin_def)
    qed
    ultimately show ?thesis by simp
  qed
  ultimately obtain e where e: "f64_exp (Finite z) = Finite e" "0 \<le> e" "e \<le> 2 powi (- 54)"
    by (cases "f64_exp (Finite z)") auto
  show ?thesis
    unfolding qu_f64_unfold e(1) using absorb_small [OF e(2,3)] by simp
qed

text \<open>
  C2 as stated fails: \<open>-60 < -50\<close>, and \<open>qu(-60.0) < qu(-50.0)\<close> is false, both
  being \<open>log(1 + eps)\<close>.
\<close>

theorem qu_f64_not_strict:
  "(- 60 :: real) < - 50 \<and> \<not> f64_less (qu_f64 (Finite (- 60))) (qu_f64 (Finite (- 50)))"
proof -
  have "qu_f64 (Finite (- 60)) = qu_f64 (Finite (- 50))"
    by (simp add: qu_f64_absorbed)
  moreover have "\<not> f64_less x x" for x by (cases x) simp_all
  ultimately show ?thesis by simp
qed

text \<open>
  At \<open>z = 0\<close> the epsilon is lost to rounding: \<open>(1 + eps) + 1\<close> lies half way
  between 2 and the next number and goes to the even one, 2. So \<open>qu(0.0)\<close> and the
  softplus without epsilon agree there.
\<close>

lemma round_even_tie: "round_even (2 ^ 52 + 1 / 2) = 2 ^ 52"
proof -
  have "\<lfloor>(2::real) ^ 52 + 1 / 2\<rfloor> = 2 ^ 52" by (rule floor_unique) simp_all
  then show ?thesis by (simp add: round_even_def Let_def)
qed

lemma qu_f64_zero: "qu_f64 (Finite 0) = f64_log (Finite 2) \<and> softplus_f64 (Finite 0) = f64_log (Finite 2)"
proof -
  have t: "(2::real) < f64_threshold" "(2 + spacing_1) < f64_threshold"
    using f64_threshold_big spacing_1_le by simp_all
  have one: "f64_exp (Finite 0) = Finite 1"
    using f64_threshold_big by (simp add: f64_round_finite f64_val_1)
  define y where "y = 2 + spacing_1"
  have lo: "2 powi 1 \<le> y" using spacing_1_pos by (simp add: y_def)
  have hi: "y < 2 powi (1 + 1)" using spacing_1_le by (simp add: y_def)
  have "f64_ulp y = 2 powi (1 - 52)"
    using quot_normal [OF lo hi] by (simp add: f64_emin_def)
  then have u: "f64_ulp y = 1 / 2 ^ 51" by (simp add: power_int_minus inverse_eq_divide)
  have "y / f64_ulp y = y * 2 ^ 51" unfolding u by simp
  also have "\<dots> = 2 ^ 52 + 1 / 2" by (simp add: y_def spacing_1_def algebra_simps)
  finally have q: "y / f64_ulp y = 2 ^ 52 + 1 / 2" .
  have r: "round_even (y / f64_ulp y) = 2 ^ 52" unfolding q by (rule round_even_tie)
  have "f64_val y = of_int (round_even (y / f64_ulp y)) * f64_ulp y"
    by (simp only: f64_val_def)
  also have "\<dots> = of_int (2 ^ 52) * f64_ulp y" by (simp only: r)
  also have "\<dots> = 2" by (simp add: u)
  finally have "f64_val y = 2" .
  then have "f64_round (1 + spacing_1 + 1) = Finite 2"
    using t spacing_1_pos by (simp add: f64_round_finite y_def add.commute add.left_commute)
  moreover have "f64_round (1 + 1) = Finite 2"
    using t by (simp add: f64_round_finite f64_val_2)
  ultimately show ?thesis
    unfolding qu_f64_unfold softplus_f64_def one by simp
qed



subsection \<open>The identity as a lower bound\<close>

lemma abs_diff_lower: "\<bar>e - x\<bar> \<le> r \<Longrightarrow> x - r \<le> e"
  for e x r :: real
  by linarith

lemma abs_diff_upper: "\<bar>e - x\<bar> \<le> r \<Longrightarrow> e \<le> x + r"
  for e x r :: real
  by linarith

lemma f64_round_le_PosInf: "0 \<le> y \<Longrightarrow> f64_le (f64_round y) PosInf"
  using f64_threshold_pos by (simp add: f64_round_def)

lemma ln_rel_lower:
  fixes x e :: real
  assumes "0 < x" and "x - x / 2 ^ 53 \<le> e"
  shows "ln x - 1 / 2 ^ 52 \<le> ln e"
proof -
  define t :: real where "t = 1 / 2 ^ 53"
  have t: "0 \<le> t" "t \<le> 1 / 2" "- t - 2 * t\<^sup>2 \<ge> - (1 / 2 ^ 52)"
    by (simp_all add: t_def power2_eq_square)
  have "- t - 2 * t\<^sup>2 \<le> ln (1 - t)" using t(1,2) by (rule ln_one_minus_pos_lower_bound)
  then have l: "- (1 / 2 ^ 52) \<le> ln (1 - t)" using t(3) by linarith
  have p: "0 < 1 - t" by (simp add: t_def)
  have "x * (1 - t) \<le> e" using assms(2) by (simp add: t_def algebra_simps)
  moreover have "0 < x * (1 - t)" using assms(1) p by simp
  ultimately have "ln (x * (1 - t)) \<le> ln e" by (intro ln_mono) simp_all
  moreover have "ln (x * (1 - t)) = ln x + ln (1 - t)" using assms(1) p by (rule ln_mult_pos)
  ultimately show ?thesis using l by linarith
qed

lemma qu_ge_large:
  assumes "f64_val z = z" and "8 \<le> z" and "z < f64_threshold"
  shows "f64_le (Finite z) (qu_f64 (Finite z))"
  using f64_exp_nonneg [of z]
proof (cases rule: f64_le_Finite_cases)
  case 2
  then show ?thesis by (simp add: qu_f64_unfold del: f64_exp.simps)
next
  case (1 e)
  define x where "x = exp z"
  have x1: "1 \<le> x" using assms(2) by (simp add: x_def)
  have xt: "x < f64_threshold" and e: "e = f64_val x"
    using 1(1) f64_threshold_pos by (auto simp: x_def f64_round_def split: if_splits)
  have "2 powi f64_emin \<le> x" using emin_le_1 x1 by linarith
  then have "\<bar>e - x\<bar> \<le> x / 2 ^ 53" unfolding e by (rule f64_val_rel_error)
  then have ex: "x - x / 2 ^ 53 \<le> e" by (rule abs_diff_lower)
  have "f64_round x = Finite e" using 1(1) by (simp add: x_def)
  then have re: "f64_round e = Finite e" using f64_round_idem [of x e] x1 by simp
  have "f64_le (f64_round e) (f64_round (1 + spacing_1 + e))"
    using 1(2) spacing_1_pos by (intro f64_round_mono) simp_all
  then have "f64_le (Finite e) (f64_add (Finite (1 + spacing_1)) (Finite e))"
    by (simp add: re)
  then show ?thesis
  proof (cases rule: f64_le_Finite_cases)
    case 2
    then show ?thesis by (simp add: qu_f64_unfold 1(1) del: f64_exp.simps f64_add.simps)
  next
    case (1 a)
    have e0: "0 < e" using ex x1 by (simp add: field_simps) 
    then have a0: "0 < a" using 1(2) by linarith
    have "ln x - 1 / 2 ^ 52 \<le> ln e" using ex x1 by (intro ln_rel_lower) simp_all
    moreover have "ln e \<le> ln a" using 1(2) e0 by (rule ln_mono)
    ultimately have l: "z - 1 / 2 ^ 52 \<le> ln a" by (simp add: x_def)
    have "f64_val (z - 1 / 2 ^ 52) = z" using assms(1,2) by (intro f64_val_below) simp_all
    moreover have "0 \<le> z - 1 / 2 ^ 52" "z - 1 / 2 ^ 52 < f64_threshold"
      using assms(2,3) by simp_all
    ultimately have "f64_round (z - 1 / 2 ^ 52) = Finite z" by (simp add: f64_round_finite)
    moreover have "f64_le (f64_round (z - 1 / 2 ^ 52)) (f64_round (ln a))"
      using l assms(2) by (intro f64_round_mono) simp_all
    ultimately have "f64_le (Finite z) (f64_round (ln a))" by simp
    then show ?thesis
      using 1(1) a0 \<open>f64_exp (Finite z) = Finite e\<close>
      by (simp add: qu_f64_unfold del: f64_exp.simps f64_add.simps)
  qed
qed

lemma exp_8_le: "exp (8::real) \<le> 2 ^ 13"
proof -
  have "exp (8::real) = exp 1 ^ 8" using exp_of_nat_mult [of 8 "1::real"] by simp
  also have "\<dots> \<le> 3 ^ 8" using exp_le by (intro power_mono) simp_all
  also have "\<dots> \<le> 2 ^ 13" by simp
  finally show ?thesis .
qed

lemma qu_ge_small:
  assumes "0 \<le> z" and "z \<le> 8" and "f64_round z = Finite z"
  shows "f64_le (Finite z) (qu_f64 (Finite z))"
proof -
  define x where "x = exp z"
  have x1: "1 \<le> x" using assms(1) by (simp add: x_def)
  have "x \<le> exp 8" using assms(2) by (simp add: x_def)
  then have x13: "x \<le> 2 ^ 13" using exp_8_le by linarith
  have big: "(2::real) ^ 14 < f64_threshold" using f64_threshold_big by simp
  have n: "2 powi f64_emin \<le> x" using emin_le_1 x1 by linarith
  define e where "e = f64_val x"
  have E: "f64_exp (Finite z) = Finite e"
    using x1 x13 big by (simp add: x_def [symmetric] e_def f64_round_finite)
  have "\<bar>e - x\<bar> \<le> x / 2 ^ 53" unfolding e_def using n by (rule f64_val_rel_error)
  moreover have "x / 2 ^ 53 \<le> 2 ^ 13 / 2 ^ 53" using x13 by (intro divide_right_mono) simp_all
  ultimately have "\<bar>e - x\<bar> \<le> 2 ^ 13 / 2 ^ 53" by (rule order_trans)
  then have "\<bar>e - x\<bar> \<le> 1 / 2 ^ 40" by simp
  then have ex: "x - 1 / 2 ^ 40 \<le> e" "e \<le> x + 1 / 2 ^ 40"
    by (rule abs_diff_lower, rule abs_diff_upper)
  define y where "y = 1 + spacing_1 + e"
  have y1: "1 \<le> y" using ex(1) x1 spacing_1_pos by (simp add: y_def)
  have y14: "y \<le> 2 ^ 14" using ex(2) x13 spacing_1_le by (simp add: y_def)
  define a where "a = f64_val y"
  have A: "f64_add (Finite (1 + spacing_1)) (Finite e) = Finite a"
    using y1 y14 big by (simp add: y_def [symmetric] a_def f64_round_finite)
  have "2 powi f64_emin \<le> y" using emin_le_1 y1 by linarith
  then have "\<bar>a - y\<bar> \<le> y / 2 ^ 53" unfolding a_def by (rule f64_val_rel_error)
  moreover have "y / 2 ^ 53 \<le> 2 ^ 14 / 2 ^ 53" using y14 by (intro divide_right_mono) simp_all
  ultimately have "\<bar>a - y\<bar> \<le> 2 ^ 14 / 2 ^ 53" by (rule order_trans)
  then have "\<bar>a - y\<bar> \<le> 1 / 2 ^ 39" by simp
  then have "y - 1 / 2 ^ 39 \<le> a" by (rule abs_diff_lower)
  then have xa: "x \<le> a" using ex(1) spacing_1_pos by (simp add: y_def)
  then have a0: "0 < a" using x1 by linarith
  have "ln x \<le> ln a" using xa x1 by (intro ln_mono) simp_all
  then have "z \<le> ln a" by (simp add: x_def)
  then have "f64_le (f64_round z) (f64_round (ln a))" using assms(1) by (intro f64_round_mono)
  then have "f64_le (Finite z) (f64_round (ln a))" by (simp add: assms(3))
  then show ?thesis using a0 by (simp add: qu_f64_unfold E A del: f64_exp.simps f64_add.simps)
qed

lemma qu_ge_nonpos:
  assumes "z \<le> 0"
  shows "f64_le (Finite z) (qu_f64 (Finite z))"
proof -
  have "f64_less (Finite 0) (qu_f64 (Finite z))"
    unfolding qu_f64_unfold by (intro f64_log_pos qu_arg_ge)
  then show ?thesis using assms by (cases "qu_f64 (Finite z)") simp_all
qed

text \<open>
  C10. For every binary64 number \<open>z\<close> the result of \<open>qu\<close> is at least \<open>z\<close>. (It is
  not always larger: see \<open>qu_f64_not_above\<close> below.)
\<close>

theorem qu_f64_ge_identity:
  assumes "f64_round z = Finite z"
  shows "f64_le (Finite z) (qu_f64 (Finite z))"
proof (cases "z \<le> 0")
  case True
  then show ?thesis by (rule qu_ge_nonpos)
next
  case False
  then have z: "0 \<le> z" by simp
  show ?thesis
  proof (cases "z \<le> 8")
    case True
    with z show ?thesis using assms by (rule qu_ge_small)
  next
    case False
    have "z < f64_threshold" "f64_val z = z"
      using assms z f64_threshold_pos by (auto simp: f64_round_def split: if_splits)
    then show ?thesis using False by (intro qu_ge_large) simp_all
  qed
qed

lemma f64_round_40: "f64_round 40 = Finite 40"
proof -
  have a: "f64_val (of_int (5 * 2 ^ 50) * 2 powi (- 47)) = of_int (5 * 2 ^ 50) * 2 powi (- 47)"
    by (intro f64_val_normal_fix) (simp_all add: f64_emin_def)
  have b: "of_int (5 * 2 ^ 50) * (2::real) powi (- 47) = 40"
    by (simp add: power_int_minus)
  have "f64_val 40 = 40" using a unfolding b .
  then show ?thesis using f64_threshold_big by (simp add: f64_round_finite)
qed

theorem qu_f64_ge_identity_witness:
  "f64_round 40 = Finite 40 \<and> f64_le (Finite 40) (qu_f64 (Finite 40))"
  using qu_f64_ge_identity [OF f64_round_40] f64_round_40 by simp

lemma abs_diff_le: "x - r \<le> e \<Longrightarrow> e \<le> x + r \<Longrightarrow> \<bar>e - x\<bar> \<le> r"
  for e x r :: real
  by linarith

text \<open>Adding at most 2 to a kept number of size at least \<open>2^55\<close> is lost to rounding.\<close>

lemma f64_val_absorb:
  assumes "f64_val e = e" and "2 ^ 55 \<le> e" and "0 \<le> d" and "d \<le> 2"
  shows "f64_val (e + d) = e"
proof -
  have "(1::real) \<le> 2 ^ 55" by simp
  then have "2 powi f64_emin \<le> e" using emin_le_1 assms(2) by linarith
  with assms(1) obtain k n where k: "f64_emin \<le> k" "2 powi k \<le> e" "e < 2 powi (k + 1)"
    and en: "e = of_int n * 2 powi (k - 52)" and n: "2 ^ 52 \<le> n" "n < 2 ^ 53"
    by (rule kept_normal)
  have k55: "55 \<le> k"
  proof (rule ccontr)
    assume "\<not> 55 \<le> k"
    then have "k + 1 \<le> 55" by simp
    then have "(2::real) powi (k + 1) \<le> 2 powi 55" by (intro power_int_increasing) simp_all
    then show False using k(3) assms(2) by simp
  qed
  define u where "u = (2::real) powi (k - 52)"
  have u: "0 < u" by (simp add: u_def)
  have "(2::real) powi (55 - 52) \<le> 2 powi (k - 52)"
    using k55 by (intro power_int_increasing) simp_all
  then have u8: "8 \<le> u" by (simp add: u_def)
  define t where "t = d / u"
  have t: "0 \<le> t" "t \<le> 1 / 4" using u u8 assms(3,4) by (simp_all add: t_def divide_le_eq)
  have e: "e = of_int n * u" using en by (simp add: u_def)
  have "k - 52 + 53 = k + 1" by arith
  then have pk: "(2::real) powi (k + 1) = 2 ^ 53 * u"
    unfolding u_def using powi_53 [of "k - 52"] by (simp only:)
  have "n \<le> 2 ^ 53 - 1" using n(2) by simp
  then have "(of_int n :: real) \<le> 2 ^ 53 - 1"
    by (metis of_int_le_iff of_int_diff of_int_2p of_int_1)
  then have "e \<le> (2 ^ 53 - 1) * u" unfolding e using u by (intro mult_right_mono) simp_all
  then have hi: "e + d < 2 powi (k + 1)" unfolding pk using u8 assms(4) by (simp add: algebra_simps)
  have lo: "2 powi k \<le> e + d" using k(2) assms(3) by linarith
  have uy: "f64_ulp (e + d) = u" using quot_normal [OF lo hi k(1)] by (simp add: u_def)
  have "(e + d) / u = of_int n + t" unfolding e t_def using u by (simp add: add_divide_distrib)
  then have "\<bar>(e + d) / u - of_int n\<bar> < 1 / 2" using t by simp
  then have r: "round_even ((e + d) / u) = n" by (rule round_even_near)
  have "f64_val (e + d) = of_int (round_even ((e + d) / f64_ulp (e + d))) * f64_ulp (e + d)"
    by (simp only: f64_val_def)
  also have "\<dots> = of_int n * u" by (simp only: uy r)
  finally show ?thesis by (simp only: e [symmetric])
qed

lemma exp_40_bounds: "2 ^ 55 \<le> exp (40::real) \<and> exp (40::real) \<le> 2 ^ 64"
proof
  have "(13 / 8 :: real) \<le> exp (1 / 2)"
    using exp_lower_Taylor_quadratic [of "1 / 2 :: real"] by (simp add: power2_eq_square)
  then have "(13 / 8 :: real) ^ 80 \<le> exp (1 / 2) ^ 80" by (intro power_mono) simp_all
  moreover have "exp (40::real) = exp (1 / 2) ^ 80"
    using exp_of_nat_mult [of 80 "1 / 2 :: real"] by simp
  moreover have "(2::real) ^ 55 \<le> (13 / 8) ^ 80"
    by (simp add: power_divide le_divide_eq)
  ultimately show "2 ^ 55 \<le> exp (40::real)" by linarith
  have "exp (40::real) = exp 1 ^ 40" using exp_of_nat_mult [of 40 "1::real"] by simp
  also have "\<dots> \<le> 3 ^ 40" using exp_le by (intro power_mono) simp_all
  also have "\<dots> \<le> 2 ^ 64" by simp
  finally show "exp (40::real) \<le> 2 ^ 64" .
qed

lemma f64_val_ln_40:
  assumes "\<bar>l - 40\<bar> \<le> 1 / 2 ^ 52"
  shows "f64_val l = 40"
proof -
  have b: "40 - 1 / 2 ^ 52 \<le> l" "l \<le> 40 + 1 / 2 ^ 52"
    using assms by (rule abs_diff_lower, rule abs_diff_upper)
  have lo: "2 powi 5 \<le> l" using b(1) by simp
  have hi: "l < 2 powi (5 + 1)" using b(2) by simp
  have "f64_ulp l = 2 powi (5 - 52)"
    using quot_normal [OF lo hi] by (simp add: f64_emin_def)
  then have u: "f64_ulp l = 1 / 2 ^ 47" by (simp add: power_int_minus inverse_eq_divide)
  have "l / f64_ulp l - of_int (5 * 2 ^ 50) = (l - 40) * 2 ^ 47" unfolding u by simp
  moreover have "\<bar>(l - 40) * 2 ^ 47\<bar> \<le> 1 / 2 ^ 52 * 2 ^ 47"
    unfolding abs_mult using assms by (intro mult_mono) simp_all
  ultimately have "\<bar>l / f64_ulp l - of_int (5 * 2 ^ 50)\<bar> < 1 / 2" by simp
  then have r: "round_even (l / f64_ulp l) = 5 * 2 ^ 50" by (rule round_even_near)
  have "f64_val l = of_int (round_even (l / f64_ulp l)) * f64_ulp l" by (simp only: f64_val_def)
  also have "\<dots> = of_int (5 * 2 ^ 50) * f64_ulp l" by (simp only: r)
  also have "\<dots> = 40" by (simp add: u)
  finally show ?thesis .
qed

lemma qu_f64_40: "qu_f64 (Finite 40) = Finite 40"
proof -
  define x where "x = exp (40::real)"
  have x: "2 ^ 55 \<le> x" "x \<le> 2 ^ 64" using exp_40_bounds by (simp_all add: x_def)
  have big: "(2::real) ^ 65 < f64_threshold"
  proof -
    have "(2::real) ^ 65 \<le> 2 ^ 1023" by (intro power_increasing) simp_all
    moreover have "(2::real) ^ 1023 < f64_threshold"
    proof -
      have "(2::real) ^ 1024 = 2 * 2 ^ 1023" by (simp only: power_Suc [symmetric]) simp
      moreover have "(2::real) ^ 970 < 2 ^ 1023" by (intro power_strict_increasing) simp_all
      ultimately show ?thesis by (simp add: f64_threshold_def)
    qed
    ultimately show ?thesis by linarith
  qed
  define e where "e = f64_val x"
  have x0: "0 \<le> x" using x(1) by (rule order_trans [rotated]) simp
  have xt: "x < f64_threshold" using x(2) big by simp
  have E: "f64_exp (Finite 40) = Finite e"
    using x0 xt by (simp add: x_def [symmetric] e_def f64_round_finite)
  have ee: "f64_val e = e" unfolding e_def using x0 by (rule f64_val_idem)
  have "f64_val (2 powi 55) \<le> f64_val x" using x(1) by (intro f64_val_mono) simp_all
  then have e55: "2 ^ 55 \<le> e" using f64_val_pow2 [of 55] by (simp add: e_def f64_emin_def)
  have "f64_val x \<le> f64_val (2 powi 64)" using x(2) x0 by (intro f64_val_mono) simp_all
  then have e64: "e \<le> 2 ^ 64" using f64_val_pow2 [of 64] by (simp add: e_def f64_emin_def)
  have e0: "0 < e" using e55 by (rule less_le_trans [rotated]) simp
  have "f64_val (e + (1 + spacing_1)) = e"
    using ee e55 spacing_1_pos spacing_1_le by (intro f64_val_absorb) simp_all
  moreover have "0 \<le> e + (1 + spacing_1)" "e + (1 + spacing_1) < f64_threshold"
    using e0 e64 big spacing_1_pos spacing_1_le by simp_all
  ultimately have "f64_round (e + (1 + spacing_1)) = Finite e" by (simp add: f64_round_finite)
  then have A: "f64_add (Finite (1 + spacing_1)) (Finite e) = Finite e"
    by (simp add: add.commute)
  have n: "2 powi f64_emin \<le> x" using emin_le_1 x(1) by simp
  have rel: "\<bar>e - x\<bar> \<le> x / 2 ^ 53" unfolding e_def using n by (rule f64_val_rel_error)
  have xpos: "0 < x" using x(1) by (rule less_le_trans [rotated]) simp
  have lnx: "ln x = 40" by (simp add: x_def)
  have lo: "40 - 1 / 2 ^ 52 \<le> ln e"
    using ln_rel_lower [OF xpos abs_diff_lower [OF rel]] by (simp add: lnx)
  have "e \<le> x * (1 + 1 / 2 ^ 53)" using abs_diff_upper [OF rel] by (simp add: algebra_simps)
  then have "ln e \<le> ln (x * (1 + 1 / 2 ^ 53))" using e0 by (intro ln_mono) simp_all
  also have "\<dots> = ln x + ln (1 + 1 / 2 ^ 53)" using xpos by (intro ln_mult_pos) simp_all
  also have "\<dots> \<le> ln x + 1 / 2 ^ 53" using ln_add_one_self_le_self [of "1 / 2 ^ 53 :: real"] by simp
  finally have hi: "ln e \<le> 40 + 1 / 2 ^ 52" by (simp add: lnx)
  have "\<bar>ln e - 40\<bar> \<le> 1 / 2 ^ 52" using lo hi by (rule abs_diff_le)
  then have "f64_val (ln e) = 40" by (rule f64_val_ln_40)
  moreover have "0 \<le> ln e" "ln e < f64_threshold" using lo hi big by simp_all
  ultimately have "f64_round (ln e) = Finite 40" by (simp add: f64_round_finite)
  then show ?thesis
    using e0 by (simp add: qu_f64_unfold E A del: f64_exp.simps f64_add.simps)
qed

text \<open>
  C10 as stated fails: \<open>qu(40.0) > 40.0\<close> is false. \<open>np.exp(40.0)\<close> is above
  \<open>2^55\<close>, where the numbers are at least 8 apart, so adding \<open>1 + eps\<close> is lost,
  and the logarithm of the rounded exponential rounds back to \<open>40.0\<close>.
\<close>

theorem qu_f64_not_above:
  "qu_f64 (Finite 40) = Finite 40 \<and> \<not> f64_less (Finite 40) (qu_f64 (Finite 40))"
  by (simp add: qu_f64_40)

section \<open>The penalty on binary64\<close>

lemma f64_rounded_round: "0 \<le> y \<Longrightarrow> f64_rounded (f64_round y)"
proof -
  assume y: "0 \<le> y"
  show ?thesis
  proof (cases "f64_round y")
    case (Finite v)
    then show ?thesis using f64_round_idem [OF y Finite] by (simp add: f64_rounded_def)
  next
    case PosInf
    then show ?thesis by (simp add: f64_rounded_def)
  next
    case NegInf
    then show ?thesis using y f64_threshold_pos by (simp add: f64_round_def split: if_splits)
  next
    case NaN
    then show ?thesis by (simp add: f64_round_def split: if_splits)
  qed
qed

lemma f64_rounded_0: "f64_rounded (Finite 0)"
  by (simp add: f64_rounded_def f64_round_0)

lemma f64_rounded_add:
  assumes "f64_rounded a" and "0 \<le> v"
  shows "f64_rounded (f64_add a (Finite v))"
proof (cases a)
  case (Finite w)
  then have "0 \<le> w + v" using assms by (simp add: f64_rounded_def)
  then show ?thesis using Finite by (simp add: f64_rounded_round)
qed (use assms in \<open>simp_all add: f64_rounded_def\<close>)

lemma f64_add_Finite:
  assumes "f64_add a b = Finite s"
  obtains v w where "a = Finite v" and "b = Finite w"
  using assms by (cases a; cases b) simp_all

lemma foldl_add_Finite:
  "foldl f64_add a xs = Finite s \<Longrightarrow> (\<exists>v. a = Finite v) \<and> (\<forall>x\<in>set xs. \<exists>w. x = Finite w)"
proof (induction xs arbitrary: a)
  case Nil
  then show ?case by simp
next
  case (Cons x xs)
  then have "(\<exists>v. f64_add a x = Finite v) \<and> (\<forall>y\<in>set xs. \<exists>w. y = Finite w)" by simp
  then show ?case by (auto elim: f64_add_Finite)
qed

lemma norm2_Finite_elems:
  assumes "norm2_f64 beta = Finite n2"
  shows "\<forall>b\<in>set beta. \<exists>v. b = Finite v"
proof -
  obtain s where s: "foldl f64_add (Finite 0) (map (\<lambda>v. f64_mul v v) beta) = Finite s"
    using assms unfolding norm2_f64_def
    by (cases "foldl f64_add (Finite 0) (map (\<lambda>v. f64_mul v v) beta)") simp_all
  have sq: "\<forall>x\<in>set (map (\<lambda>v. f64_mul v v) beta). \<exists>w. x = Finite w"
    using foldl_add_Finite [OF s] by blast
  show ?thesis
  proof
    fix b assume "b \<in> set beta"
    then obtain w where "f64_mul b b = Finite w" using sq by auto
    then show "\<exists>v. b = Finite v" by (cases b) simp_all
  qed
qed

lemma foldl_abs_rounded:
  assumes "f64_rounded a" and "\<forall>b\<in>set xs. \<exists>v. b = Finite v"
  shows "f64_rounded (foldl f64_add a (map f64_abs xs))"
  using assms
proof (induction xs arbitrary: a)
  case Nil
  then show ?case by simp
next
  case (Cons x xs)
  then obtain v where v: "x = Finite v" by auto
  have "f64_rounded (f64_add a (Finite \<bar>v\<bar>))" using Cons.prems(1) by (intro f64_rounded_add) simp_all
  then show ?case using Cons v by simp
qed

lemma norm1_rounded:
  assumes "\<forall>b\<in>set beta. \<exists>v. b = Finite v"
  shows "f64_rounded (norm1_f64 beta)"
  unfolding norm1_f64_def using f64_rounded_0 assms by (rule foldl_abs_rounded)

lemma f64_mul_one: "f64_rounded x \<Longrightarrow> f64_mul (Finite 1) x = x"
  by (cases x) (simp_all add: f64_rounded_def)

lemma f64_add_zero: "f64_rounded x \<Longrightarrow> f64_add (Finite 0) x = x"
  by (cases x) (simp_all add: f64_rounded_def)

lemma half_zero: "f64_mul (Finite 0.5) (f64_sub (Finite 1) (Finite 1)) = Finite 0"
  by (simp add: f64_sub_def f64_round_0)

text \<open>
  C3. For every \<open>beta\<close> whose Euclidean norm \<open>np.linalg.norm(beta, 2)\<close> is finite,
  \<open>penalty(1, beta)\<close> is \<open>np.linalg.norm(beta, 1)\<close>: the L2 term is \<open>0 * norm2 = 0\<close>,
  and multiplying by 1 and adding 0 change nothing.
\<close>

theorem penalty_f64_lasso:
  assumes "norm2_f64 beta = Finite n2"
  shows "penalty_f64 (Finite 1) beta = norm1_f64 beta"
proof -
  have r: "f64_rounded (norm1_f64 beta)"
    using norm2_Finite_elems [OF assms] by (rule norm1_rounded)
  have "f64_mul (f64_mul (Finite 0.5) (f64_sub (Finite 1) (Finite 1))) (norm2_f64 beta) = Finite 0"
    unfolding half_zero assms by (simp add: f64_round_0)
  then have "penalty_f64 (Finite 1) beta = f64_add (Finite 0) (f64_mul (Finite 1) (norm1_f64 beta))"
    by (simp only: penalty_f64_def)
  then show ?thesis using r by (simp only: f64_mul_one f64_add_zero)
qed

lemma f64_round_2: "f64_round 2 = Finite 2"
  using f64_threshold_big by (simp add: f64_round_finite f64_val_2)

lemma f64_round_4: "f64_round 4 = Finite 4"
  using f64_threshold_big by (simp add: f64_round_finite f64_val_4)

lemma norm2_two: "norm2_f64 [Finite 2] = Finite 2"
  by (simp add: norm2_f64_def f64_round_4 f64_round_2)


theorem penalty_f64_lasso_witness:
  "norm2_f64 [Finite 2] = Finite 2 \<and> penalty_f64 (Finite 1) [Finite 2] = norm1_f64 [Finite 2]"
  using penalty_f64_lasso [OF norm2_two] norm2_two by simp

lemma square_overflows: "f64_mul (Finite (2 ^ 700)) (Finite (2 ^ 700)) = PosInf"
proof -
  have "(2::real) ^ 700 * 2 ^ 700 = 2 ^ 1400" by (simp only: power_add [symmetric]) simp
  moreover have "(2::real) ^ 1024 \<le> 2 ^ 1400" by (intro power_increasing) simp_all
  moreover have "f64_threshold \<le> 2 ^ 1024" by (simp add: f64_threshold_def)
  ultimately have "f64_threshold \<le> 2 ^ 700 * 2 ^ 700" by linarith
  then show ?thesis using f64_threshold_pos by (simp add: f64_round_def)
qed

lemma f64_round_pow700: "f64_round (2 ^ 700) = Finite (2 ^ 700)"
proof -
  have "f64_val (2 powi 700) = 2 powi 700" by (intro f64_val_pow2) (simp add: f64_emin_def)
  then have v: "f64_val (2 ^ 700) = 2 ^ 700" by (simp only: power_int_numeral)
  have "(2::real) ^ 700 < 2 ^ 1023" by (intro power_strict_increasing) simp_all
  moreover have "(2::real) ^ 1023 \<le> f64_threshold"
  proof -
    have "(2::real) ^ 1024 = 2 * 2 ^ 1023" by (simp only: power_Suc [symmetric]) simp
    moreover have "(2::real) ^ 970 \<le> 2 ^ 1023" by (intro power_increasing) simp_all
    ultimately show ?thesis by (simp add: f64_threshold_def)
  qed
  ultimately have "(2::real) ^ 700 < f64_threshold" by linarith
  then show ?thesis using v by (simp only: f64_round_finite [OF zero_le_power [OF zero_le_numeral]])
qed

text \<open>
  C3 as stated fails: at \<open>beta = [2.0**700]\<close> the square overflows, the Euclidean norm
  is \<open>inf\<close>, and \<open>0.5 * (1 - 1) * inf\<close> is NaN, so \<open>penalty(1, beta)\<close> is NaN, while
  the L1 norm is \<open>2.0**700\<close>.
\<close>

theorem penalty_f64_lasso_nan:
  "penalty_f64 (Finite 1) [Finite (2 ^ 700)] = NaN \<and>
   norm1_f64 [Finite (2 ^ 700)] = Finite (2 ^ 700)"
proof
  have "norm2_f64 [Finite (2 ^ 700)] = PosInf"
    by (simp only: norm2_f64_def list.map foldl.simps square_overflows f64_add.simps
        f64_sqrt.simps)
  then show "penalty_f64 (Finite 1) [Finite (2 ^ 700)] = NaN"
    by (simp only: penalty_f64_def half_zero f64_mul.simps f64_add.simps simp_thms if_True)
  have "\<bar>(2::real) ^ 700\<bar> = 2 ^ 700" by simp
  then show "norm1_f64 [Finite (2 ^ 700)] = Finite (2 ^ 700)"
    by (simp only: norm1_f64_def list.map foldl.simps f64_abs.simps f64_add.simps add_0
        f64_round_pow700)
qed











end
